theory Spec2Isabelle
  imports Main
begin

section \<open>Inter-core latency measurement (icl.c)\<close>

text \<open>
  The program measures, for every pair of CPUs of the affinity mask, the time two pinned
  threads need to hand a signal back and forth through shared atomic cells. The
  development has two layers, both read off \<^verbatim>\<open>icl.c\<close>:
  \<^item> the sequential layer: pinning, the per-pair sample loop with its minimum, and the two
    nested loops that fill the latency matrix. A sample is summarised by the two readings
    of the monotonic clock that bracket its hand-off;
  \<^item> the concurrent layer: the main thread and the spawned thread of one pair as two
    programs over the cells \<open>seq1\<close> and \<open>seq2\<close>, every atomic access one indivisible step,
    interleaved by a schedule.
\<close>

subsection \<open>Integers of C\<close>

text \<open>
  \<^verbatim>\<open>long long\<close> and \<^verbatim>\<open>int\<close> values are modelled as \<open>int\<close>. The sample loop only assigns,
  compares and divides by the positive constants 2 and 100, the protocol counters stay
  between -1 and 199, and matrix indices stay below \<open>ncpus * ncpus\<close>, so no operation of the
  modelled code can overflow. Division in C truncates towards zero, unlike \<open>div\<close>.
\<close>

definition c_div :: "int \<Rightarrow> int \<Rightarrow> int" where
  "c_div a b = (if (a < 0) = (b < 0) then \<bar>a\<bar> div \<bar>b\<bar> else - (\<bar>a\<bar> div \<bar>b\<bar>))"

subsection \<open>The monotonic clock\<close>

record timespec =
  tv_sec :: int
  tv_nsec :: int

text \<open>
  \<^verbatim>\<open>clock_gettime(CLOCK_MONOTONIC, &ts)\<close> when the monotonic time is \<open>t\<close> nanoseconds: the
  reading is normalised, \<open>tv_nsec\<close> below one second.
\<close>

definition clock_gettime :: "nat \<Rightarrow> timespec" where
  "clock_gettime t =
     \<lparr>tv_sec = int (t div 1000000000), tv_nsec = int (t mod 1000000000)\<rparr>"

subsection \<open>Double arithmetic on integers\<close>

text \<open>
  The elapsed time is computed in \<^verbatim>\<open>double\<close>. Every value that occurs is an integer, and the
  double nearest to an integer is again an integer, so the arithmetic is modelled on \<open>int\<close>
  with the rounding of IEEE 754 binary64 written out: round to nearest, ties to the even
  significand, each operation rounded on its own. \<open>ulp x\<close> is the distance between
  neighbouring doubles at the magnitude \<open>x\<close>: 1 below \<open>2^53 = 9007199254740992\<close>, doubling
  with every further power of two.
\<close>

function ulp :: "nat \<Rightarrow> nat" where
  "ulp x = (if x < 9007199254740992 then 1 else 2 * ulp (x div 2))"
  by pat_completeness auto
termination
  by (relation "measure id") auto

declare ulp.simps [simp del]

definition round_nat :: "nat \<Rightarrow> nat" where
  "round_nat x =
     (let u = ulp x; q = x div u; r = x mod u
      in if 2 * r < u \<or> (2 * r = u \<and> even q) then q * u else (q + 1) * u)"

text \<open>The double nearest to the integer \<open>x\<close>; the rounding is symmetric in the sign.\<close>

definition to_double :: "int \<Rightarrow> int" where
  "to_double x = (if x < 0 then - int (round_nat (nat (- x))) else int (round_nat (nat x)))"

text \<open>
  \<^verbatim>\<open>(ts2.tv_sec - ts1.tv_sec) * 1e9 + (ts2.tv_nsec - ts1.tv_nsec)\<close>, lines 213-214, 242-243
  and, against 200000000, lines 63-64 and 190-192: the two differences are taken in
  \<^verbatim>\<open>long\<close> and converted to \<^verbatim>\<open>double\<close>, the product and the sum are rounded. The result is
  integral; the conversion to \<^verbatim>\<open>long long\<close> at lines 212 and 241 keeps it, and C defines
  that conversion for values below \<open>2^63\<close>, an elapsed time of 292 years.
\<close>

definition elapsed_ns :: "timespec \<Rightarrow> timespec \<Rightarrow> int" where
  "elapsed_ns ts1 ts2 =
     to_double (to_double (to_double (tv_sec ts2 - tv_sec ts1) * 1000000000)
                + to_double (tv_nsec ts2 - tv_nsec ts1))"

subsection \<open>Affinity control\<close>

text \<open>
  \<^verbatim>\<open>perror("sched_setaffinity"); exit(1);\<close> ends the whole process, whichever thread calls
  it. The outcome of a process that ended this way is the operation reported on the error
  stream and the exit status.
\<close>

record fatal =
  report :: string
  status :: int

text \<open>
  \<open>pinThread\<close>, lines 39-48. The system call is a parameter: it maps the requested CPU to
  the call's return value, -1 for a rejected request.
\<close>

definition pinThread :: "(int \<Rightarrow> int) \<Rightarrow> int \<Rightarrow> fatal + unit" where
  "pinThread setaffinity cpu =
     (if setaffinity cpu = -1
      then Inl \<lparr>report = ''sched_setaffinity'', status = 1\<rparr>
      else Inr ())"

subsection \<open>The sample loop of one pair\<close>

text \<open>
  Lines 198-248 with the hand-off of each sample summarised by what the clock shows around
  it: \<open>obs m = (t, d)\<close> says that sample \<open>m\<close> took its first reading at monotonic time \<open>t\<close> and
  its second one \<open>d\<close> nanoseconds later. \<^verbatim>\<open>CLOCK_MONOTONIC\<close> never runs backwards, which
  is why \<open>d\<close> is a natural number. Both branches of \<^verbatim>\<open>if (!use_write)\<close> reduce their
  elapsed time into \<open>rtt\<close> the same way (lines 212-217 and 241-246).
\<close>

function sample_loop :: "(nat \<Rightarrow> nat \<times> nat) \<Rightarrow> bool \<Rightarrow> int \<Rightarrow> int \<Rightarrow> int \<Rightarrow> int" where
  "sample_loop obs use_write nsamples m rtt =
     (if m < nsamples then
        (if \<not> use_write then
           (let ts1 = clock_gettime (fst (obs (nat m)));
                ts2 = clock_gettime (fst (obs (nat m)) + snd (obs (nat m)));
                current_rtt = elapsed_ns ts1 ts2
            in sample_loop obs use_write nsamples (m + 1)
                 (if rtt = -1 \<or> current_rtt < rtt then current_rtt else rtt))
         else
           (let ts1 = clock_gettime (fst (obs (nat m)));
                ts2 = clock_gettime (fst (obs (nat m)) + snd (obs (nat m)));
                current_rtt = elapsed_ns ts1 ts2
            in sample_loop obs use_write nsamples (m + 1)
                 (if rtt = -1 \<or> current_rtt < rtt then current_rtt else rtt)))
      else rtt)"
  by pat_completeness auto
termination
  by (relation "measure (\<lambda>(obs, use_write, nsamples, m, rtt). nat (nsamples - m))") auto

declare sample_loop.simps [simp del]

text \<open>
  The Pair Sampler of the specification: \<^verbatim>\<open>long long rtt = -1;\<close> (line 182), the sample
  loop, and \<^verbatim>\<open>rtt / 2 / 100\<close> (lines 252-253), the value stored for the pair.
\<close>

definition pair_rtt :: "(nat \<Rightarrow> nat \<times> nat) \<Rightarrow> bool \<Rightarrow> int \<Rightarrow> int" where
  "pair_rtt obs use_write nsamples = sample_loop obs use_write nsamples 0 (-1)"

definition per_hop :: "int \<Rightarrow> int" where
  "per_hop rtt = c_div (c_div rtt 2) 100"

definition pair_sampler :: "(nat \<Rightarrow> nat \<times> nat) \<Rightarrow> bool \<Rightarrow> int \<Rightarrow> int" where
  "pair_sampler obs use_write nsamples = per_hop (pair_rtt obs use_write nsamples)"

subsection \<open>The matrix builder\<close>

datatype ctx = Initiator | Responder

text \<open>
  What the machine contributes to a run: the answer of every affinity call (by the pair
  being measured and the calling thread) and the clock observations of every sample of
  every pair.
\<close>

record env =
  sched_setaffinity :: "nat \<Rightarrow> nat \<Rightarrow> ctx \<Rightarrow> int \<Rightarrow> int"
  handoff :: "nat \<Rightarrow> nat \<Rightarrow> nat \<Rightarrow> nat \<times> nat"

text \<open>
  The state of \<open>main\<close> across the pair loops: the array \<open>data\<close> and, as a log of the effects,
  the pairs of positions for which a responder thread was created and the sample loop run.
\<close>

record build_state =
  data :: "int list"
  measured :: "(nat \<times> nat) list"

text \<open>
  The body of the inner loop for positions \<open>i\<close> and \<open>j\<close>, lines 172-253, for a measurement
  whose warm-ups and spin-waits all return (the source inlines the sampler and the builder
  of the specification in \<open>main\<close>): the spawned thread pins itself to \<open>cpus[i]\<close> (line 56), the
  main thread to \<open>cpus[j]\<close> (line 184); a rejected request ends the process; otherwise the
  sample loop runs, the thread is joined and the two mirror entries are written.
\<close>

definition measure_pair ::
  "env \<Rightarrow> int list \<Rightarrow> bool \<Rightarrow> int \<Rightarrow> nat \<Rightarrow> nat \<Rightarrow> build_state \<Rightarrow> fatal + build_state" where
  "measure_pair e cpus use_write nsamples i j st =
     (let ncpus = length cpus in
      case pinThread (sched_setaffinity e i j Responder) (cpus ! i) of
        Inl f \<Rightarrow> Inl f
      | Inr _ \<Rightarrow>
          (case pinThread (sched_setaffinity e i j Initiator) (cpus ! j) of
             Inl f \<Rightarrow> Inl f
           | Inr _ \<Rightarrow>
               (let rtt = pair_rtt (handoff e i j) use_write nsamples
                in Inr \<lparr>data = (data st)[i * ncpus + j := c_div (c_div rtt 2) 100,
                                         j * ncpus + i := c_div (c_div rtt 2) 100],
                        measured = measured st @ [(i, j)]\<rparr>)))"

text \<open>\<^verbatim>\<open>for (int j = i + 1; j < ncpus; ++j)\<close>, line 170, entered with \<open>j = i + 1\<close>.\<close>

function inner_loop ::
  "env \<Rightarrow> int list \<Rightarrow> bool \<Rightarrow> int \<Rightarrow> nat \<Rightarrow> nat \<Rightarrow> build_state \<Rightarrow> fatal + build_state" where
  "inner_loop e cpus use_write nsamples i j st =
     (if j < length cpus then
        (case measure_pair e cpus use_write nsamples i j st of
           Inl f \<Rightarrow> Inl f
         | Inr st' \<Rightarrow> inner_loop e cpus use_write nsamples i (j + 1) st')
      else Inr st)"
  by pat_completeness auto
termination
  by (relation "measure (\<lambda>(e, cpus, use_write, nsamples, i, j, st). length cpus - j)") auto

declare inner_loop.simps [simp del]

text \<open>\<^verbatim>\<open>for (int i = 0; i < ncpus; ++i)\<close>, line 169.\<close>

function outer_loop ::
  "env \<Rightarrow> int list \<Rightarrow> bool \<Rightarrow> int \<Rightarrow> nat \<Rightarrow> build_state \<Rightarrow> fatal + build_state" where
  "outer_loop e cpus use_write nsamples i st =
     (if i < length cpus then
        (case inner_loop e cpus use_write nsamples i (i + 1) st of
           Inl f \<Rightarrow> Inl f
         | Inr st' \<Rightarrow> outer_loop e cpus use_write nsamples (i + 1) st')
      else Inr st)"
  by pat_completeness auto
termination
  by (relation "measure (\<lambda>(e, cpus, use_write, nsamples, i, st). length cpus - i)") auto

declare outer_loop.simps [simp del]

text \<open>
  Lines 167-255: \<^verbatim>\<open>calloc(ncpus * ncpus, sizeof(long long))\<close> gives a zeroed array, then
  the pair loops run. \<open>Inl\<close> is a process that exited before anything was printed.
\<close>

definition build :: "env \<Rightarrow> int list \<Rightarrow> bool \<Rightarrow> int \<Rightarrow> fatal + build_state" where
  "build e cpus use_write nsamples =
     outer_loop e cpus use_write nsamples 0
       \<lparr>data = replicate (length cpus * length cpus) 0, measured = []\<rparr>"

text \<open>The entry \<^verbatim>\<open>data[i * ncpus + j]\<close> of the matrix.\<close>

definition entry :: "nat \<Rightarrow> build_state \<Rightarrow> nat \<Rightarrow> nat \<Rightarrow> int" where
  "entry ncpus st i j = data st ! (i * ncpus + j)"

subsection \<open>Notions used to state the properties\<close>

text \<open>The elapsed time the sample loop computes in round \<open>m\<close> (its \<open>current_rtt\<close>).\<close>

definition elapsed_of :: "(nat \<Rightarrow> nat \<times> nat) \<Rightarrow> nat \<Rightarrow> int" where
  "elapsed_of obs m =
     elapsed_ns (clock_gettime (fst (obs m))) (clock_gettime (fst (obs m) + snd (obs m)))"

text \<open>The least elapsed time over the rounds \<open>0, \<dots>, nsamples - 1\<close>.\<close>

definition min_elapsed :: "(nat \<Rightarrow> nat \<times> nat) \<Rightarrow> int \<Rightarrow> int" where
  "min_elapsed obs nsamples = Min (elapsed_of obs ` {0..<nat nsamples})"

text \<open>
  Every elapsed time of the rounds \<open>0, \<dots>, nsamples - 1\<close> is below \<open>2^63\<close>, so that its
  conversion to \<^verbatim>\<open>long long\<close> at lines 212 and 241 is defined.
\<close>

definition fits_long_long :: "(nat \<Rightarrow> nat \<times> nat) \<Rightarrow> int \<Rightarrow> bool" where
  "fits_long_long obs nsamples =
     (\<forall>m \<in> {0..<nat nsamples}. elapsed_of obs m < 9223372036854775808)"

text \<open>
  Every round \<open>m < nsamples\<close> takes less than \<open>2^53\<close> ns on the clock, the range in which
  \<^verbatim>\<open>double\<close> holds every integer.
\<close>

definition exact_in_double :: "(nat \<Rightarrow> nat \<times> nat) \<Rightarrow> int \<Rightarrow> bool" where
  "exact_in_double obs nsamples = (\<forall>m \<in> {0..<nat nsamples}. snd (obs m) < 9007199254740992)"

text \<open>Observations for a trial: round \<open>m\<close> starts at \<open>1000 * m\<close> ns and takes \<open>d\<close> ns.\<close>

definition every_round :: "nat \<Rightarrow> nat \<Rightarrow> nat \<times> nat" where
  "every_round d m = (1000 * m, d)"

text \<open>Both affinity requests of the pair at positions \<open>i\<close> and \<open>j\<close> are accepted.\<close>

definition pins_ok :: "env \<Rightarrow> int list \<Rightarrow> nat \<Rightarrow> nat \<Rightarrow> bool" where
  "pins_ok e cpus i j =
     (sched_setaffinity e i j Responder (cpus ! i) \<noteq> -1 \<and>
      sched_setaffinity e i j Initiator (cpus ! j) \<noteq> -1)"

definition pin_failure :: fatal where
  "pin_failure = \<lparr>report = ''sched_setaffinity'', status = 1\<rparr>"

text \<open>The value measured for the unordered pair of the positions \<open>a\<close> and \<open>b\<close>.\<close>

definition latency :: "env \<Rightarrow> bool \<Rightarrow> int \<Rightarrow> nat \<Rightarrow> nat \<Rightarrow> int" where
  "latency e w ns a b = pair_sampler (handoff e (min a b) (max a b)) w ns"

text \<open>The pairs \<open>(i, j)\<close> with \<open>i < j < n\<close>, in the order of the two loops.\<close>

definition all_pairs :: "nat \<Rightarrow> (nat \<times> nat) list" where
  "all_pairs n = concat (map (\<lambda>i. map (Pair i) [i + 1..<n]) [0..<n])"

section \<open>The two threads of one pair\<close>

subsection \<open>The warm-up loop\<close>

text \<open>
  Lines 185-196 (main thread) and 58-68 (spawned thread): \<open>start\<close> is read once, then the
  clock is polled until \<open>now - start\<close> reaches 200000000 ns. \<open>readings k\<close> is the monotonic
  time shown by the thread's call number \<open>k\<close> of \<^verbatim>\<open>clock_gettime\<close>, call 0 being the one
  for \<open>start\<close>. The loop has no other exit, so on a clock that never gets that far it does
  not return: the result is \<open>None\<close>. \<open>Some k\<close> is the number of the poll that ended the loop.
\<close>

partial_function (option) warmup_poll :: "(nat \<Rightarrow> nat) \<Rightarrow> timespec \<Rightarrow> nat \<Rightarrow> nat option" where
  "warmup_poll readings start k =
     (if 200000000 \<le> elapsed_ns start (clock_gettime (readings k)) then Some k
      else warmup_poll readings start (k + 1))"

definition warmup :: "(nat \<Rightarrow> nat) \<Rightarrow> nat option" where
  "warmup readings = warmup_poll readings (clock_gettime (readings 0)) 1"

subsection \<open>Program points, shared cells and the log of effects\<close>

text \<open>
  The options of a run that both threads read: \<^verbatim>\<open>-s\<close>, \<^verbatim>\<open>-w\<close> and \<^verbatim>\<open>-H\<close> (lines 99-103,
  copied into \<^verbatim>\<open>thread_args_t\<close> at line 177).
\<close>

record options =
  nsamples :: int
  use_write :: bool
  preheat :: bool

text \<open>
  The main thread between \<^verbatim>\<open>pthread_create\<close> (line 179) and the stores into \<open>data\<close>
  (line 252). One program point for each access to a shared cell, each clock reading of a
  sample, the warm-up and the join; \<open>I_Store n\<close>, \<open>I_Spin n\<close> and \<open>I_Cas n\<close> carry the
  counter \<open>n\<close> of the inner loop.
\<close>

datatype initiator_pc =
    I_Pin           \<comment> \<open>line 184\<close>
  | I_Preheat       \<comment> \<open>lines 185-196\<close>
  | I_Loop          \<comment> \<open>line 198, the test \<open>m < nsamples\<close>\<close>
  | I_Reset1        \<comment> \<open>line 199\<close>
  | I_Reset2        \<comment> \<open>line 200\<close>
  | I_BarStore      \<comment> \<open>line 220\<close>
  | I_BarSpin       \<comment> \<open>lines 222-224\<close>
  | I_BarClear      \<comment> \<open>line 225\<close>
  | I_Ts1           \<comment> \<open>line 202 or 227\<close>
  | I_Store nat     \<comment> \<open>line 204\<close>
  | I_Spin nat      \<comment> \<open>lines 206-209\<close>
  | I_Cas nat       \<comment> \<open>lines 229-234\<close>
  | I_Wait          \<comment> \<open>lines 237-239\<close>
  | I_Ts2           \<comment> \<open>line 211 or 240, and the update of \<open>rtt\<close>\<close>
  | I_Join          \<comment> \<open>line 250\<close>
  | I_Done

text \<open>The spawned thread, \<open>thread_func\<close> (lines 53-94).\<close>

datatype responder_pc =
    R_Pin           \<comment> \<open>line 56\<close>
  | R_Preheat       \<comment> \<open>lines 58-68\<close>
  | R_Loop          \<comment> \<open>line 70, the test \<open>m < args->nsamples\<close>\<close>
  | R_Spin nat      \<comment> \<open>lines 73-75\<close>
  | R_Store nat     \<comment> \<open>line 76\<close>
  | R_BarSpin       \<comment> \<open>lines 80-81\<close>
  | R_BarStore      \<comment> \<open>line 82\<close>
  | R_Cas nat       \<comment> \<open>lines 85-89\<close>
  | R_Done          \<comment> \<open>line 93\<close>

datatype cell = Seq1 | Seq2

text \<open>
  What a step does that another thread or the clock can observe, logged in order:
  \<open>Wrote c x m v\<close>: thread \<open>c\<close>, in its sample \<open>m\<close>, stored \<open>v\<close> into cell \<open>x\<close> (a successful
  compare-and-exchange is a store); \<open>Passed c x m v\<close>: a spin-wait of \<open>c\<close> on \<open>x\<close> returned in
  sample \<open>m\<close> on loading \<open>v\<close>; \<open>Ts1 m\<close> and \<open>Ts2 m\<close>: the two clock readings of sample \<open>m\<close>;
  \<open>Warmup c\<close>: the warm-up loop of \<open>c\<close> returned.
\<close>

datatype event =
    Warmup ctx
  | Ts1 int
  | Ts2 int
  | Wrote ctx cell int int
  | Passed ctx cell int int

record pair_state =
  seq1 :: int
  seq2 :: int
  ipc :: initiator_pc
  im :: int
  rpc :: responder_pc
  rm :: int
  trace :: "event list"

text \<open>
  Lines 172-173 and 179: both cells hold -1 and the spawned thread exists when the main
  thread reaches line 184.
\<close>

definition init :: pair_state where
  "init = \<lparr>seq1 = -1, seq2 = -1, ipc = I_Pin, im = 0, rpc = R_Pin, rm = 0, trace = []\<rparr>"

subsection \<open>The steps of the two threads\<close>

text \<open>
  One step of the main thread, lines 184-250, for affinity requests that are accepted (a
  rejected one ends the process, see \<open>pinThread\<close>). A spin-wait whose load does not show
  the awaited value leaves the state as it is, and so does a compare-and-exchange that
  fails: line 231 sets \<open>cmp\<close> again before the next attempt. The step out of the last
  iteration of a \<^verbatim>\<open>for\<close> loop includes the failing loop test, the step \<open>I_Ts2\<close> the \<^verbatim>\<open>++m\<close>.
\<close>

definition main_step :: "options \<Rightarrow> pair_state \<Rightarrow> pair_state" where
  "main_step a s =
     (case ipc s of
        I_Pin \<Rightarrow> s\<lparr>ipc := I_Preheat\<rparr>
      | I_Preheat \<Rightarrow>
          if preheat a then s\<lparr>ipc := I_Loop, trace := trace s @ [Warmup Initiator]\<rparr>
          else s\<lparr>ipc := I_Loop\<rparr>
      | I_Loop \<Rightarrow> if im s < nsamples a then s\<lparr>ipc := I_Reset1\<rparr> else s\<lparr>ipc := I_Join\<rparr>
      | I_Reset1 \<Rightarrow>
          s\<lparr>seq1 := -1, ipc := I_Reset2, trace := trace s @ [Wrote Initiator Seq1 (im s) (-1)]\<rparr>
      | I_Reset2 \<Rightarrow>
          s\<lparr>seq2 := -1, ipc := (if \<not> use_write a then I_Ts1 else I_BarStore),
            trace := trace s @ [Wrote Initiator Seq2 (im s) (-1)]\<rparr>
      | I_BarStore \<Rightarrow>
          s\<lparr>seq2 := 0, ipc := I_BarSpin, trace := trace s @ [Wrote Initiator Seq2 (im s) 0]\<rparr>
      | I_BarSpin \<Rightarrow>
          if seq2 s = 0 then s
          else s\<lparr>ipc := I_BarClear, trace := trace s @ [Passed Initiator Seq2 (im s) (seq2 s)]\<rparr>
      | I_BarClear \<Rightarrow>
          s\<lparr>seq2 := -1, ipc := I_Ts1, trace := trace s @ [Wrote Initiator Seq2 (im s) (-1)]\<rparr>
      | I_Ts1 \<Rightarrow>
          s\<lparr>ipc := (if \<not> use_write a then I_Store 0 else I_Cas 0),
            trace := trace s @ [Ts1 (im s)]\<rparr>
      | I_Store n \<Rightarrow>
          s\<lparr>seq1 := int n, ipc := I_Spin n,
            trace := trace s @ [Wrote Initiator Seq1 (im s) (int n)]\<rparr>
      | I_Spin n \<Rightarrow>
          if seq2 s \<noteq> int n then s
          else s\<lparr>ipc := (if n + 1 < 100 then I_Store (n + 1) else I_Ts2),
                 trace := trace s @ [Passed Initiator Seq2 (im s) (seq2 s)]\<rparr>
      | I_Cas n \<Rightarrow>
          if seq1 s = 2 * int n - 1
          then s\<lparr>seq1 := 2 * int n - 1 + 1,
                 ipc := (if n + 1 < 100 then I_Cas (n + 1) else I_Wait),
                 trace := trace s @ [Wrote Initiator Seq1 (im s) (2 * int n - 1 + 1)]\<rparr>
          else s
      | I_Wait \<Rightarrow>
          if seq1 s \<noteq> 199 then s
          else s\<lparr>ipc := I_Ts2, trace := trace s @ [Passed Initiator Seq1 (im s) (seq1 s)]\<rparr>
      | I_Ts2 \<Rightarrow> s\<lparr>ipc := I_Loop, im := im s + 1, trace := trace s @ [Ts2 (im s)]\<rparr>
      | I_Join \<Rightarrow> if rpc s = R_Done then s\<lparr>ipc := I_Done\<rparr> else s
      | I_Done \<Rightarrow> s)"

text \<open>One step of \<open>thread_func\<close>, lines 56-93, in the same way.\<close>

definition thread_func_step :: "options \<Rightarrow> pair_state \<Rightarrow> pair_state" where
  "thread_func_step a s =
     (case rpc s of
        R_Pin \<Rightarrow> s\<lparr>rpc := R_Preheat\<rparr>
      | R_Preheat \<Rightarrow>
          if preheat a then s\<lparr>rpc := R_Loop, trace := trace s @ [Warmup Responder]\<rparr>
          else s\<lparr>rpc := R_Loop\<rparr>
      | R_Loop \<Rightarrow>
          if rm s < nsamples a
          then s\<lparr>rpc := (if \<not> use_write a then R_Spin 0 else R_BarSpin)\<rparr>
          else s\<lparr>rpc := R_Done\<rparr>
      | R_Spin n \<Rightarrow>
          if seq1 s \<noteq> int n then s
          else s\<lparr>rpc := R_Store n, trace := trace s @ [Passed Responder Seq1 (rm s) (seq1 s)]\<rparr>
      | R_Store n \<Rightarrow>
          s\<lparr>seq2 := int n,
            rpc := (if n + 1 < 100 then R_Spin (n + 1) else R_Loop),
            rm := (if n + 1 < 100 then rm s else rm s + 1),
            trace := trace s @ [Wrote Responder Seq2 (rm s) (int n)]\<rparr>
      | R_BarSpin \<Rightarrow>
          if seq2 s \<noteq> 0 then s
          else s\<lparr>rpc := R_BarStore, trace := trace s @ [Passed Responder Seq2 (rm s) (seq2 s)]\<rparr>
      | R_BarStore \<Rightarrow>
          s\<lparr>seq2 := 1, rpc := R_Cas 0, trace := trace s @ [Wrote Responder Seq2 (rm s) 1]\<rparr>
      | R_Cas n \<Rightarrow>
          if seq1 s = 2 * int n
          then s\<lparr>seq1 := 2 * int n + 1,
                 rpc := (if n + 1 < 100 then R_Cas (n + 1) else R_Loop),
                 rm := (if n + 1 < 100 then rm s else rm s + 1),
                 trace := trace s @ [Wrote Responder Seq1 (rm s) (2 * int n + 1)]\<rparr>
          else s
      | R_Done \<Rightarrow> s)"

text \<open>
  The two threads run interleaved: a schedule names, step by step, the thread that moves.
  Every state the pair can be in is \<open>run a sched init\<close> for some schedule. Each atomic
  access is one step on a single memory shared by both threads, whatever its
  \<^verbatim>\<open>memory_order\<close>: the model is the two-thread step relation over the two cells, it does
  not distinguish acquire and release from sequentially consistent accesses.
\<close>

definition step :: "options \<Rightarrow> ctx \<Rightarrow> pair_state \<Rightarrow> pair_state" where
  "step a c s = (case c of Initiator \<Rightarrow> main_step a s | Responder \<Rightarrow> thread_func_step a s)"

fun run :: "options \<Rightarrow> ctx list \<Rightarrow> pair_state \<Rightarrow> pair_state" where
  "run a [] s = s"
| "run a (c # sched) s = run a sched (step a c s)"

subsection \<open>Notions used to state the properties of the protocols\<close>

text \<open>
  The program points of the main thread inside the timed window of a sample: after the
  first clock reading and up to the second one.
\<close>

fun timed :: "initiator_pc \<Rightarrow> bool" where
  "timed (I_Store n) = True"
| "timed (I_Spin n) = True"
| "timed (I_Cas n) = True"
| "timed I_Wait = True"
| "timed I_Ts2 = True"
| "timed _ = False"

text \<open>In the log \<open>tr\<close>, every occurrence of \<open>e2\<close> comes after an occurrence of \<open>e1\<close>.\<close>

definition before :: "event \<Rightarrow> event \<Rightarrow> event list \<Rightarrow> bool" where
  "before e1 e2 tr = (\<forall>k < length tr. tr ! k = e2 \<longrightarrow> e1 \<in> set (take k tr))"

text \<open>The values stored into the cell \<open>x\<close>, in the order of the stores.\<close>

fun stores :: "cell \<Rightarrow> event list \<Rightarrow> int list" where
  "stores x [] = []"
| "stores x (Wrote c y m v # tr) = (if y = x then v # stores x tr else stores x tr)"
| "stores x (e # tr) = stores x tr"

subsection \<open>Invariants of the two protocols\<close>

text \<open>
  What holds of each thread alone at a program point: the pre-loop points belong to sample
  0, the points of the sample loop to a sample \<open>m < nsamples\<close> of the protocol selected by
  \<open>use_write\<close>, the inner counters are below 100, and the main thread leaves the loop with
  \<open>m = nsamples\<close> (with 0 when \<open>nsamples\<close> is negative).
\<close>

fun i_ok :: "options \<Rightarrow> int \<Rightarrow> initiator_pc \<Rightarrow> bool" where
  "i_ok a m I_Pin = (m = 0)"
| "i_ok a m I_Preheat = (m = 0)"
| "i_ok a m I_Loop = (m = 0 \<or> m \<le> nsamples a)"
| "i_ok a m I_Reset1 = (m < nsamples a)"
| "i_ok a m I_Reset2 = (m < nsamples a)"
| "i_ok a m I_BarStore = (m < nsamples a \<and> use_write a)"
| "i_ok a m I_BarSpin = (m < nsamples a \<and> use_write a)"
| "i_ok a m I_BarClear = (m < nsamples a \<and> use_write a)"
| "i_ok a m I_Ts1 = (m < nsamples a)"
| "i_ok a m (I_Store n) = (m < nsamples a \<and> n < 100 \<and> \<not> use_write a)"
| "i_ok a m (I_Spin n) = (m < nsamples a \<and> n < 100 \<and> \<not> use_write a)"
| "i_ok a m (I_Cas n) = (m < nsamples a \<and> n < 100 \<and> use_write a)"
| "i_ok a m I_Wait = (m < nsamples a \<and> use_write a)"
| "i_ok a m I_Ts2 = (m < nsamples a)"
| "i_ok a m I_Join = (\<not> m < nsamples a \<and> (m = 0 \<or> m \<le> nsamples a))"
| "i_ok a m I_Done = (\<not> m < nsamples a \<and> (m = 0 \<or> m \<le> nsamples a))"

fun r_ok :: "options \<Rightarrow> int \<Rightarrow> responder_pc \<Rightarrow> bool" where
  "r_ok a m R_Pin = (m = 0)"
| "r_ok a m R_Preheat = (m = 0)"
| "r_ok a m R_Loop = True"
| "r_ok a m (R_Spin n) = (m < nsamples a \<and> n < 100 \<and> \<not> use_write a)"
| "r_ok a m (R_Store n) = (m < nsamples a \<and> n < 100 \<and> \<not> use_write a)"
| "r_ok a m R_BarSpin = (m < nsamples a \<and> use_write a)"
| "r_ok a m R_BarStore = (m < nsamples a \<and> use_write a)"
| "r_ok a m (R_Cas n) = (m < nsamples a \<and> n < 100 \<and> use_write a)"
| "r_ok a m R_Done = (\<not> m < nsamples a)"

definition wf :: "options \<Rightarrow> pair_state \<Rightarrow> bool" where
  "wf a s = (0 \<le> im s \<and> 0 \<le> rm s \<and> i_ok a (im s) (ipc s) \<and> r_ok a (rm s) (rpc s)
             \<and> (ipc s = I_Done \<longrightarrow> rpc s = R_Done))"

text \<open>
  The spawned thread has not yet touched a cell in its current sample (flag exchange:
  it may be loading \<open>seq1\<close> for step 0; compare-and-exchange: it may be loading \<open>seq2\<close> for
  the barrier), or it has returned.
\<close>

fun r_rest :: "responder_pc \<Rightarrow> bool" where
  "r_rest R_Pin = True"
| "r_rest R_Preheat = True"
| "r_rest R_Loop = True"
| "r_rest (R_Spin n) = (n = 0)"
| "r_rest R_BarSpin = True"
| "r_rest R_Done = True"
| "r_rest _ = False"

text \<open>
  Flag exchange: where the spawned thread is and what the cells hold, by the program
  point of the main thread.
\<close>

fun flag_rel :: "initiator_pc \<Rightarrow> pair_state \<Rightarrow> bool" where
  "flag_rel I_Pin s = (rm s = 0 \<and> seq1 s = -1 \<and> seq2 s = -1 \<and> r_rest (rpc s))"
| "flag_rel I_Preheat s = (rm s = 0 \<and> seq1 s = -1 \<and> seq2 s = -1 \<and> r_rest (rpc s))"
| "flag_rel I_Loop s = (rm s = im s \<and> r_rest (rpc s) \<and> (seq1 s = -1 \<or> seq1 s = 99))"
| "flag_rel I_Reset1 s = (rm s = im s \<and> r_rest (rpc s) \<and> (seq1 s = -1 \<or> seq1 s = 99))"
| "flag_rel I_Reset2 s = (rm s = im s \<and> r_rest (rpc s) \<and> seq1 s = -1)"
| "flag_rel I_Ts1 s = (rm s = im s \<and> r_rest (rpc s) \<and> seq1 s = -1 \<and> seq2 s = -1)"
| "flag_rel (I_Store n) s =
     (rm s = im s \<and> seq1 s = int n - 1 \<and> seq2 s = int n - 1 \<and>
      (if n = 0 then r_rest (rpc s) else rpc s = R_Spin n))"
| "flag_rel (I_Spin n) s =
     (seq1 s = int n \<and>
      ((rm s = im s \<and> seq2 s = int n - 1 \<and>
        ((n = 0 \<and> r_rest (rpc s)) \<or> rpc s = R_Spin n \<or> rpc s = R_Store n)) \<or>
       (seq2 s = int n \<and>
        (if n + 1 < 100 then rm s = im s \<and> rpc s = R_Spin (n + 1)
         else rm s = im s + 1 \<and> r_rest (rpc s)))))"
| "flag_rel I_Ts2 s = (seq1 s = 99 \<and> seq2 s = 99 \<and> rm s = im s + 1 \<and> r_rest (rpc s))"
| "flag_rel I_Join s = (rm s = im s \<and> r_rest (rpc s) \<and> (seq1 s = -1 \<or> seq1 s = 99))"
| "flag_rel I_Done s = (rm s = im s \<and> r_rest (rpc s) \<and> (seq1 s = -1 \<or> seq1 s = 99))"
| "flag_rel _ s = False"

definition flag_inv :: "options \<Rightarrow> pair_state \<Rightarrow> bool" where
  "flag_inv a s = (wf a s \<and> flag_rel (ipc s) s)"

text \<open>Compare-and-exchange: the same for the barrier on \<open>seq2\<close> and the counter in \<open>seq1\<close>.\<close>

fun cas_rel :: "initiator_pc \<Rightarrow> pair_state \<Rightarrow> bool" where
  "cas_rel I_Pin s = (rm s = 0 \<and> seq1 s = -1 \<and> seq2 s = -1 \<and> r_rest (rpc s))"
| "cas_rel I_Preheat s = (rm s = 0 \<and> seq1 s = -1 \<and> seq2 s = -1 \<and> r_rest (rpc s))"
| "cas_rel I_Loop s =
     (rm s = im s \<and> r_rest (rpc s) \<and> seq2 s = -1 \<and>
      (if im s = 0 then seq1 s = -1 else seq1 s = 199))"
| "cas_rel I_Reset1 s =
     (rm s = im s \<and> r_rest (rpc s) \<and> seq2 s = -1 \<and>
      (if im s = 0 then seq1 s = -1 else seq1 s = 199))"
| "cas_rel I_Reset2 s = (rm s = im s \<and> r_rest (rpc s) \<and> seq2 s = -1 \<and> seq1 s = -1)"
| "cas_rel I_BarStore s = (rm s = im s \<and> r_rest (rpc s) \<and> seq2 s = -1 \<and> seq1 s = -1)"
| "cas_rel I_BarSpin s =
     (rm s = im s \<and> seq1 s = -1 \<and>
      ((seq2 s = 0 \<and> (r_rest (rpc s) \<or> rpc s = R_BarStore)) \<or>
       (seq2 s = 1 \<and> rpc s = R_Cas 0)))"
| "cas_rel I_BarClear s = (rm s = im s \<and> seq1 s = -1 \<and> seq2 s = 1 \<and> rpc s = R_Cas 0)"
| "cas_rel I_Ts1 s = (rm s = im s \<and> seq1 s = -1 \<and> seq2 s = -1 \<and> rpc s = R_Cas 0)"
| "cas_rel (I_Cas n) s =
     (rm s = im s \<and> seq2 s = -1 \<and>
      ((seq1 s = 2 * int n - 1 \<and> rpc s = R_Cas n) \<or>
       (0 < n \<and> seq1 s = 2 * int n - 2 \<and> rpc s = R_Cas (n - 1))))"
| "cas_rel I_Wait s =
     (seq2 s = -1 \<and>
      ((rm s = im s \<and> seq1 s = 198 \<and> rpc s = R_Cas 99) \<or>
       (seq1 s = 199 \<and> rm s = im s + 1 \<and> r_rest (rpc s))))"
| "cas_rel I_Ts2 s = (seq2 s = -1 \<and> seq1 s = 199 \<and> rm s = im s + 1 \<and> r_rest (rpc s))"
| "cas_rel I_Join s =
     (rm s = im s \<and> r_rest (rpc s) \<and> seq2 s = -1 \<and>
      (if im s = 0 then seq1 s = -1 else seq1 s = 199))"
| "cas_rel I_Done s =
     (rm s = im s \<and> r_rest (rpc s) \<and> seq2 s = -1 \<and>
      (if im s = 0 then seq1 s = -1 else seq1 s = 199))"
| "cas_rel _ s = False"

definition cas_inv :: "options \<Rightarrow> pair_state \<Rightarrow> bool" where
  "cas_inv a s = (wf a s \<and> cas_rel (ipc s) s)"

subsection \<open>The order of the logged events\<close>

fun peer :: "ctx \<Rightarrow> ctx" where
  "peer Initiator = Responder"
| "peer Responder = Initiator"

fun is_Ts1 :: "event \<Rightarrow> bool" where
  "is_Ts1 (Ts1 m) = True"
| "is_Ts1 _ = False"

text \<open>With warm-up enabled, the warm-up of thread \<open>c\<close> is in the log.\<close>

definition warmed :: "options \<Rightarrow> ctx \<Rightarrow> event list \<Rightarrow> bool" where
  "warmed a c tr = (preheat a \<longrightarrow> Warmup c \<in> set tr)"

text \<open>
  What the log \<open>tr\<close> holds already when a step adds the event: a spin-wait returns on a
  value the peer stored for this sample; the first clock reading of a compare-and-exchange
  sample follows the barrier, the second reading follows the last wait; a store of the
  hand-off follows the first clock reading and the event that enabled it; every access to
  a cell and every clock reading follows the warm-up of its thread; a warm-up is the first
  one of its thread and, for the main thread and under the barrier of the
  compare-and-exchange protocol, precedes every first clock reading.
\<close>

fun justified :: "options \<Rightarrow> event list \<Rightarrow> event \<Rightarrow> bool" where
  "justified a tr (Passed c x m v) = (Wrote (peer c) x m v \<in> set tr \<and> warmed a c tr)"
| "justified a tr (Ts1 m) =
     (warmed a Initiator tr \<and>
      (use_write a \<longrightarrow> Passed Initiator Seq2 m 1 \<in> set tr \<and> warmed a Responder tr))"
| "justified a tr (Ts2 m) =
     (Ts1 m \<in> set tr \<and>
      (if use_write a then Passed Initiator Seq1 m 199 else Passed Initiator Seq2 m 99) \<in> set tr)"
| "justified a tr (Wrote Initiator Seq1 m v) =
     (warmed a Initiator tr \<and>
      (v = -1 \<or>
       (Ts1 m \<in> set tr \<and>
        (0 < v \<longrightarrow>
           (if use_write a then Wrote Responder Seq1 m (v - 1)
            else Passed Initiator Seq2 m (v - 1)) \<in> set tr))))"
| "justified a tr (Wrote Initiator Seq2 m v) = warmed a Initiator tr"
| "justified a tr (Wrote Responder Seq1 m v) =
     (Wrote Initiator Seq1 m (v - 1) \<in> set tr \<and> warmed a Responder tr)"
| "justified a tr (Wrote Responder Seq2 m v) =
     ((if use_write a then Passed Responder Seq2 m 0 else Passed Responder Seq1 m v) \<in> set tr \<and>
      warmed a Responder tr)"
| "justified a tr (Warmup Initiator) = (Warmup Initiator \<notin> set tr \<and> \<not> list_ex is_Ts1 tr)"
| "justified a tr (Warmup Responder) =
     (Warmup Responder \<notin> set tr \<and> (use_write a \<longrightarrow> \<not> list_ex is_Ts1 tr))"

definition justified_trace :: "options \<Rightarrow> event list \<Rightarrow> bool" where
  "justified_trace a tr = (\<forall>k < length tr. justified a (take k tr) (tr ! k))"

text \<open>What the log holds when a thread is at a program point in its sample \<open>m\<close>.\<close>

fun i_link :: "options \<Rightarrow> event list \<Rightarrow> int \<Rightarrow> initiator_pc \<Rightarrow> bool" where
  "i_link a tr m I_Pin = (Warmup Initiator \<notin> set tr)"
| "i_link a tr m I_Preheat = (Warmup Initiator \<notin> set tr)"
| "i_link a tr m I_BarSpin = (Wrote Initiator Seq2 m 0 \<in> set tr)"
| "i_link a tr m I_BarClear = (Passed Initiator Seq2 m 1 \<in> set tr)"
| "i_link a tr m I_Ts1 = (use_write a \<longrightarrow> Passed Initiator Seq2 m 1 \<in> set tr)"
| "i_link a tr m (I_Store n) =
     (Ts1 m \<in> set tr \<and> (0 < n \<longrightarrow> Passed Initiator Seq2 m (int n - 1) \<in> set tr))"
| "i_link a tr m (I_Spin n) = (Ts1 m \<in> set tr \<and> Wrote Initiator Seq1 m (int n) \<in> set tr)"
| "i_link a tr m (I_Cas n) =
     (Ts1 m \<in> set tr \<and> (0 < n \<longrightarrow> Wrote Initiator Seq1 m (2 * int n - 2) \<in> set tr))"
| "i_link a tr m I_Wait = (Ts1 m \<in> set tr \<and> Wrote Initiator Seq1 m 198 \<in> set tr)"
| "i_link a tr m I_Ts2 =
     (Ts1 m \<in> set tr \<and>
      (if use_write a then Passed Initiator Seq1 m 199 else Passed Initiator Seq2 m 99) \<in> set tr)"
| "i_link a tr m _ = True"

fun r_link :: "options \<Rightarrow> event list \<Rightarrow> int \<Rightarrow> responder_pc \<Rightarrow> bool" where
  "r_link a tr m R_Pin = (Warmup Responder \<notin> set tr)"
| "r_link a tr m R_Preheat = (Warmup Responder \<notin> set tr)"
| "r_link a tr m (R_Spin n) = (0 < n \<longrightarrow> Wrote Responder Seq2 m (int n - 1) \<in> set tr)"
| "r_link a tr m (R_Store n) = (Passed Responder Seq1 m (int n) \<in> set tr)"
| "r_link a tr m R_BarStore = (Passed Responder Seq2 m 0 \<in> set tr)"
| "r_link a tr m (R_Cas n) =
     ((if n = 0 then Wrote Responder Seq2 m 1 else Wrote Responder Seq1 m (2 * int n - 1))
        \<in> set tr)"
| "r_link a tr m _ = True"

definition links :: "options \<Rightarrow> pair_state \<Rightarrow> bool" where
  "links a s =
     (i_link a (trace s) (im s) (ipc s) \<and> r_link a (trace s) (rm s) (rpc s) \<and>
      (0 < rm s \<and> r_rest (rpc s) \<longrightarrow>
         (if use_write a then Wrote Responder Seq1 (rm s - 1) 199
          else Wrote Responder Seq2 (rm s - 1) 99) \<in> set (trace s)) \<and>
      (im s = 0 \<and> \<not> timed (ipc s) \<longrightarrow> \<not> list_ex is_Ts1 (trace s)) \<and>
      (ipc s \<noteq> I_Pin \<and> ipc s \<noteq> I_Preheat \<longrightarrow> warmed a Initiator (trace s)) \<and>
      (rpc s \<noteq> R_Pin \<and> rpc s \<noteq> R_Preheat \<longrightarrow> warmed a Responder (trace s)))"

text \<open>The protocol invariant of the selected mode, with the log.\<close>

definition pair_inv :: "options \<Rightarrow> pair_state \<Rightarrow> bool" where
  "pair_inv a s =
     ((if use_write a then cas_inv a s else flag_inv a s) \<and> links a s \<and>
      justified_trace a (trace s))"

text \<open>
  A list of stored values that counts up by one from each value to the next and, from
  \<open>hi\<close>, starts again at -1.
\<close>

fun chain :: "int \<Rightarrow> int list \<Rightarrow> bool" where
  "chain hi (u # v # xs) = ((v = u + 1 \<and> u < hi \<or> u = hi \<and> v = -1) \<and> chain hi (v # xs))"
| "chain hi xs = True"

text \<open>The main thread has not yet reset \<open>seq1\<close> in its current sample.\<close>

fun pre_reset :: "initiator_pc \<Rightarrow> bool" where
  "pre_reset I_Pin = True"
| "pre_reset I_Preheat = True"
| "pre_reset I_Loop = True"
| "pre_reset I_Reset1 = True"
| "pre_reset I_Join = True"
| "pre_reset I_Done = True"
| "pre_reset _ = False"

definition counter_inv :: "options \<Rightarrow> pair_state \<Rightarrow> bool" where
  "counter_inv a s =
     (chain 199 (stores Seq1 (trace s)) \<and>
      (if stores Seq1 (trace s) = [] then seq1 s = -1
       else hd (stores Seq1 (trace s)) = -1 \<and> last (stores Seq1 (trace s)) = seq1 s) \<and>
      ((stores Seq1 (trace s) = []) = (im s = 0 \<and> pre_reset (ipc s))))"

text \<open>
  The number of stores into \<open>seq1\<close> so far: 201 in each completed sample, the reset and
  200 exchanges, and in the current one the reset and one store for each value up to the
  one the cell holds.
\<close>

definition stores_len :: "pair_state \<Rightarrow> bool" where
  "stores_len s =
     (length (stores Seq1 (trace s)) =
        201 * nat (im s) + (if pre_reset (ipc s) then 0 else nat (seq1 s + 2)))"

text \<open>The warm-ups logged so far, by the program points of the two threads.\<close>

definition warm_inv :: "options \<Rightarrow> pair_state \<Rightarrow> bool" where
  "warm_inv a s =
     (count_list (trace s) (Warmup Initiator) =
        (if preheat a \<and> ipc s \<noteq> I_Pin \<and> ipc s \<noteq> I_Preheat then 1 else 0) \<and>
      count_list (trace s) (Warmup Responder) =
        (if preheat a \<and> rpc s \<noteq> R_Pin \<and> rpc s \<noteq> R_Preheat then 1 else 0))"

subsection \<open>Schedules that let both threads run\<close>

text \<open>
  The number of times a schedule lets one thread move and then the other, counted over
  disjoint pairs of neighbouring steps.
\<close>

fun alternations :: "ctx list \<Rightarrow> nat" where
  "alternations (c # d # sched) =
     (if c \<noteq> d then Suc (alternations sched) else alternations (d # sched))"
| "alternations sched = 0"

text \<open>The schedule of \<open>k\<close> rounds in which the two threads take turns.\<close>

fun round_robin :: "nat \<Rightarrow> ctx list" where
  "round_robin 0 = []"
| "round_robin (Suc k) = Initiator # Responder # round_robin k"

text \<open>
  A bound on the number of steps each thread has still to make in its current sample, by
  its program point (a wait or an exchange counts once: it is a step when it succeeds),
  and on the steps both threads have still to make in all, a sample taking fewer than 1000
  steps of each.
\<close>

fun i_rank :: "initiator_pc \<Rightarrow> nat" where
  "i_rank I_Pin = 308"
| "i_rank I_Preheat = 307"
| "i_rank I_Loop = 306"
| "i_rank I_Reset1 = 305"
| "i_rank I_Reset2 = 304"
| "i_rank I_BarStore = 303"
| "i_rank I_BarSpin = 302"
| "i_rank I_BarClear = 301"
| "i_rank I_Ts1 = 300"
| "i_rank (I_Store n) = 5 + 2 * (99 - n)"
| "i_rank (I_Spin n) = 4 + 2 * (99 - n)"
| "i_rank (I_Cas n) = 4 + (99 - n)"
| "i_rank I_Wait = 3"
| "i_rank I_Ts2 = 2"
| "i_rank I_Join = 1"
| "i_rank I_Done = 0"

fun r_rank :: "responder_pc \<Rightarrow> nat" where
  "r_rank R_Pin = 308"
| "r_rank R_Preheat = 307"
| "r_rank R_Loop = 306"
| "r_rank R_BarSpin = 305"
| "r_rank R_BarStore = 304"
| "r_rank (R_Spin n) = 5 + 2 * (99 - n)"
| "r_rank (R_Store n) = 4 + 2 * (99 - n)"
| "r_rank (R_Cas n) = 4 + (99 - n)"
| "r_rank R_Done = 0"

definition remaining :: "options \<Rightarrow> pair_state \<Rightarrow> nat" where
  "remaining a s =
     1000 * nat (nsamples a - im s) + i_rank (ipc s) +
     1000 * nat (nsamples a - rm s) + r_rank (rpc s)"

text \<open>The second clock reading of every sample the main thread has completed is logged.\<close>

definition completed :: "pair_state \<Rightarrow> bool" where
  "completed s = (\<forall>m \<in> {0..<im s}. Ts2 m \<in> set (trace s))"

section \<open>The sequential layer: sample loop and matrix\<close>

subsection \<open>Division and clock\<close>

lemma c_div_nonneg: "0 \<le> a \<Longrightarrow> 0 < b \<Longrightarrow> c_div a b = a div b"
  by (simp add: c_div_def)

lemma c_div_neg: "a < 0 \<Longrightarrow> 0 < b \<Longrightarrow> c_div a b = - ((- a) div b)"
  by (simp add: c_div_def)

lemma per_hop_nonneg: "0 \<le> x \<Longrightarrow> per_hop x = x div 200"
  by (simp add: per_hop_def c_div_nonneg pos_imp_zdiv_nonneg_iff div_mult2_eq [symmetric])

lemma per_hop_c_div: "per_hop x = c_div x 200"
proof (cases "0 \<le> x")
  case True
  then show ?thesis by (simp add: per_hop_nonneg c_div_nonneg)
next
  case False
  then have neg: "x < 0" by simp
  have a: "c_div x 2 = - ((- x) div 2)" using neg by (simp add: c_div_neg)
  have b: "0 \<le> (- x) div 2" using neg by (simp add: pos_imp_zdiv_nonneg_iff)
  have c: "c_div (- ((- x) div 2)) 100 = - (((- x) div 2) div 100)"
    using b by (cases "(- x) div 2 = 0") (simp_all add: c_div_def)
  show ?thesis
    unfolding per_hop_def a c using neg
    by (simp add: c_div_neg div_mult2_eq [symmetric])
qed

subsection \<open>Rounding to double\<close>

lemma ulp_small: "x < 9007199254740992 \<Longrightarrow> ulp x = 1"
  by (subst ulp.simps) simp

lemma ulp_big: "\<not> x < 9007199254740992 \<Longrightarrow> ulp x = 2 * ulp (x div 2)"
  by (subst ulp.simps) simp

lemma ulp_pos: "0 < ulp x"
  by (induction x rule: ulp.induct) (subst ulp.simps, simp)

lemma ulp_upper: "x < 9007199254740992 * ulp x"
proof (induction x rule: ulp.induct)
  case (1 x)
  show ?case
  proof (cases "x < 9007199254740992")
    case True
    then show ?thesis by (simp add: ulp_small)
  next
    case False
    have "x div 2 < 9007199254740992 * ulp (x div 2)" using 1 False by simp
    then have "x < 9007199254740992 * (2 * ulp (x div 2))" by linarith
    then show ?thesis using False by (simp add: ulp_big)
  qed
qed

lemma ulp_lower: "9007199254740992 \<le> x \<Longrightarrow> 4503599627370496 * ulp x \<le> x"
proof (induction x rule: ulp.induct)
  case (1 x)
  have big: "\<not> x < 9007199254740992" using 1(2) by simp
  show ?case
  proof (cases "x div 2 < 9007199254740992")
    case True
    then have "ulp (x div 2) = 1" by (rule ulp_small)
    then show ?thesis using big 1(2) by (simp add: ulp_big)
  next
    case False
    then have "4503599627370496 * ulp (x div 2) \<le> x div 2" using 1(1) big by simp
    then have "4503599627370496 * (2 * ulp (x div 2)) \<le> x" by linarith
    then show ?thesis using big by (simp add: ulp_big)
  qed
qed

lemma round_nat_exact: "x < 9007199254740992 \<Longrightarrow> round_nat x = x"
  by (simp add: round_nat_def ulp_small Let_def)

lemma round_nat_big:
  assumes "9007199254740992 \<le> x"
  shows "9007199254740992 \<le> round_nat x"
proof -
  define u where "u = ulp x"
  have big: "\<not> x < 9007199254740992" using assms by simp
  have u2: "2 \<le> u" using ulp_pos [of "x div 2"] big by (simp add: u_def ulp_big)
  have "4503599627370496 * u \<le> x" unfolding u_def using assms by (rule ulp_lower)
  then have q: "4503599627370496 \<le> x div u"
    using u2 by (simp add: less_eq_div_iff_mult_less_eq mult.commute)
  have "4503599627370496 * 2 \<le> (x div u) * u" using q u2 by (rule mult_le_mono)
  then have a: "9007199254740992 \<le> (x div u) * u" by simp
  have b: "(x div u) * u \<le> (x div u + 1) * u" by simp
  show ?thesis
    unfolding round_nat_def Let_def u_def [symmetric] using a b by (auto split: if_splits)
qed

lemma round_nat_even:
  assumes "x < 18014398509481984" "even x"
  shows "round_nat x = x"
proof (cases "x < 9007199254740992")
  case True
  then show ?thesis by (rule round_nat_exact)
next
  case False
  have "x div 2 < 9007199254740992" using assms(1) by simp
  then have u: "ulp x = 2" using False by (simp add: ulp_big ulp_small)
  have "x mod 2 = 0" using assms(2) by presburger
  then show ?thesis using assms(2) by (simp add: round_nat_def u Let_def)
qed

lemma to_double_exact: "\<bar>x\<bar> < 9007199254740992 \<Longrightarrow> to_double x = x"
  by (simp add: to_double_def round_nat_exact)

lemma to_double_big: "9007199254740992 \<le> x \<Longrightarrow> 9007199254740992 \<le> to_double x"
  using round_nat_big [of "nat x"] by (simp add: to_double_def)

lemma to_double_small: "x \<le> - 9007199254740992 \<Longrightarrow> to_double x \<le> - 9007199254740992"
  using round_nat_big [of "nat (- x)"] by (simp add: to_double_def)

lemma to_double_nonneg: "0 \<le> x \<Longrightarrow> 0 \<le> to_double x"
  by (simp add: to_double_def)

lemma to_double_even:
  "0 \<le> x \<Longrightarrow> x < 18014398509481984 \<Longrightarrow> even x \<Longrightarrow> to_double x = x"
  using round_nat_even [of "nat x"] by (simp add: to_double_def even_nat_iff)

text \<open>A comparison with a constant of less than 53 bits is not changed by the rounding.\<close>

lemma to_double_ge_iff:
  assumes "\<bar>c\<bar> < 9007199254740992"
  shows "(c \<le> to_double x) = (c \<le> x)"
proof -
  consider "\<bar>x\<bar> < 9007199254740992" | "9007199254740992 \<le> x" | "x \<le> - 9007199254740992"
    by linarith
  then show ?thesis
  proof cases
    case 1
    then show ?thesis by (simp add: to_double_exact)
  next
    case 2
    then show ?thesis using to_double_big [OF 2] assms by linarith
  next
    case 3
    then show ?thesis using to_double_small [OF 3] assms by linarith
  qed
qed

lemma to_double_le_iff:
  assumes "\<bar>c\<bar> < 9007199254740992"
  shows "(to_double x \<le> c) = (x \<le> c)"
proof -
  consider "\<bar>x\<bar> < 9007199254740992" | "9007199254740992 \<le> x" | "x \<le> - 9007199254740992"
    by linarith
  then show ?thesis
  proof cases
    case 1
    then show ?thesis by (simp add: to_double_exact)
  next
    case 2
    then show ?thesis using to_double_big [OF 2] assms by linarith
  next
    case 3
    then show ?thesis using to_double_small [OF 3] assms by linarith
  qed
qed

text \<open>The double computation on a difference of \<open>sd\<close> seconds and \<open>nd\<close> nanoseconds.\<close>

lemma double_sum_nonneg:
  assumes "0 \<le> sd" "\<bar>nd\<bar> < 1000000000" "0 \<le> sd * 1000000000 + nd"
  shows "0 \<le> to_double (to_double (to_double sd * 1000000000) + to_double nd)"
proof -
  have n: "to_double nd = nd" using assms(2) by (intro to_double_exact) simp
  show ?thesis
  proof (cases "sd = 0")
    case True
    then have "to_double (to_double sd * 1000000000) = 0" by (simp add: to_double_exact)
    then show ?thesis using True assms(3) n by (simp add: to_double_nonneg)
  next
    case False
    then have "1 \<le> sd" using assms(1) by simp
    then have "1 \<le> to_double sd" by (simp add: to_double_ge_iff)
    then have "1000000000 \<le> to_double sd * 1000000000" by simp
    then have "1000000000 \<le> to_double (to_double sd * 1000000000)"
      by (simp add: to_double_ge_iff)
    then have "0 \<le> to_double (to_double sd * 1000000000) + nd" using assms(2) by linarith
    then show ?thesis unfolding n by (rule to_double_nonneg)
  qed
qed

lemma double_sum_exact:
  assumes "0 \<le> sd" "\<bar>nd\<bar> < 1000000000" "0 \<le> sd * 1000000000 + nd"
    and "sd * 1000000000 + nd < 9007199254740992"
  shows "to_double (to_double (to_double sd * 1000000000) + to_double nd) = sd * 1000000000 + nd"
proof -
  have n: "to_double nd = nd" using assms(2) by (intro to_double_exact) simp
  have s: "sd < 9007201" using assms(2,4) by linarith
  then have a: "to_double sd = sd" using assms(1) by (intro to_double_exact) simp
  have "to_double (sd * 1000000000) = sd * 1000000000"
    using assms(1) s by (intro to_double_even) simp_all
  then show ?thesis unfolding a n using assms(3,4) by (simp add: to_double_exact)
qed

lemma double_sum_threshold:
  assumes "\<bar>nd\<bar> < 1000000000"
  shows "(200000000 \<le> to_double (to_double (to_double sd * 1000000000) + to_double nd))
       = (200000000 \<le> sd * 1000000000 + nd)"
proof -
  have n: "to_double nd = nd" using assms by (intro to_double_exact) simp
  let ?P = "to_double (to_double sd * 1000000000)"
  have 1: "(200000000 \<le> to_double (?P + nd)) = (200000000 \<le> ?P + nd)"
    by (simp add: to_double_ge_iff)
  consider "\<bar>sd\<bar> < 9007200" | "9007200 \<le> sd" | "sd \<le> - 9007200" by linarith
  then have "(200000000 \<le> ?P + nd) = (200000000 \<le> sd * 1000000000 + nd)"
  proof cases
    case 1
    then have a: "to_double sd = sd" by (intro to_double_exact) simp
    have "\<bar>sd * 1000000000\<bar> < 9007199254740992" using 1 by linarith
    then have "?P = sd * 1000000000" unfolding a by (rule to_double_exact)
    then show ?thesis by simp
  next
    case 2
    then have "9007200 \<le> to_double sd" by (simp add: to_double_ge_iff)
    then have "9007199254740992 \<le> to_double sd * 1000000000" by linarith
    then have "9007199254740992 \<le> ?P" by (rule to_double_big)
    then show ?thesis using 2 assms by linarith
  next
    case 3
    then have "to_double sd \<le> - 9007200" by (simp add: to_double_le_iff)
    then have "to_double sd * 1000000000 \<le> - 9007199254740992" by linarith
    then have "?P \<le> - 9007199254740992" by (rule to_double_small)
    then show ?thesis using 3 assms by linarith
  qed
  then show ?thesis unfolding n using 1 by simp
qed

lemma clock_split: "int (t div 1000000000) * 1000000000 + int (t mod 1000000000) = int t"
  by (metis div_mult_mod_eq of_nat_add of_nat_mult of_nat_numeral)

lemma clock_diff:
  "(int (t div 1000000000) - int (t0 div 1000000000)) * 1000000000
     + (int (t mod 1000000000) - int (t0 mod 1000000000)) = int t - int t0"
  using clock_split [of t] clock_split [of t0] by (simp add: algebra_simps)

lemma nsec_diff_bound: "\<bar>int (t mod 1000000000) - int (t0 mod 1000000000)\<bar> < 1000000000"
proof -
  have "t mod 1000000000 < 1000000000" "t0 mod 1000000000 < 1000000000" by simp_all
  then show ?thesis by linarith
qed

lemma elapsed_clock_nonneg: "0 \<le> elapsed_ns (clock_gettime t) (clock_gettime (t + d))"
proof -
  have s: "0 \<le> int ((t + d) div 1000000000) - int (t div 1000000000)"
    by (simp add: div_le_mono)
  have x: "0 \<le> (int ((t + d) div 1000000000) - int (t div 1000000000)) * 1000000000
     + (int ((t + d) mod 1000000000) - int (t mod 1000000000))"
    unfolding clock_diff by simp
  show ?thesis
    unfolding elapsed_ns_def clock_gettime_def
    using double_sum_nonneg [OF s nsec_diff_bound x] by simp
qed

lemma elapsed_clock:
  assumes "d < 9007199254740992"
  shows "elapsed_ns (clock_gettime t) (clock_gettime (t + d)) = int d"
proof -
  have s: "0 \<le> int ((t + d) div 1000000000) - int (t div 1000000000)"
    by (simp add: div_le_mono)
  have e: "(int ((t + d) div 1000000000) - int (t div 1000000000)) * 1000000000
     + (int ((t + d) mod 1000000000) - int (t mod 1000000000)) = int d"
    unfolding clock_diff by simp
  have x: "0 \<le> (int ((t + d) div 1000000000) - int (t div 1000000000)) * 1000000000
     + (int ((t + d) mod 1000000000) - int (t mod 1000000000))"
    unfolding e by simp
  have b: "(int ((t + d) div 1000000000) - int (t div 1000000000)) * 1000000000
     + (int ((t + d) mod 1000000000) - int (t mod 1000000000)) < 9007199254740992"
    unfolding e using assms by simp
  show ?thesis
    unfolding elapsed_ns_def clock_gettime_def
    using double_sum_exact [OF s nsec_diff_bound x b] e by simp
qed

lemma elapsed_readings:
  "(200000000 \<le> elapsed_ns (clock_gettime t0) (clock_gettime t)) = (200000000 \<le> int t - int t0)"
proof -
  have "(200000000 \<le> elapsed_ns (clock_gettime t0) (clock_gettime t)) =
        (200000000 \<le> (int (t div 1000000000) - int (t0 div 1000000000)) * 1000000000
           + (int (t mod 1000000000) - int (t0 mod 1000000000)))"
    unfolding elapsed_ns_def clock_gettime_def
    using double_sum_threshold [OF nsec_diff_bound [of t t0],
        where sd = "int (t div 1000000000) - int (t0 div 1000000000)"]
    by simp
  then show ?thesis unfolding clock_diff .
qed

subsection \<open>The sample loop keeps the minimum\<close>

lemma elapsed_of_eq:
  "snd (obs m) < 9007199254740992 \<Longrightarrow> elapsed_of obs m = int (snd (obs m))"
  by (simp add: elapsed_of_def elapsed_clock)

lemma elapsed_of_nonneg: "0 \<le> elapsed_of obs m"
  unfolding elapsed_of_def by (rule elapsed_clock_nonneg)

lemma sample_loop_exit: "\<not> m < ns \<Longrightarrow> sample_loop obs w ns m rtt = rtt"
  by (subst sample_loop.simps) simp

lemma sample_loop_step:
  "m < ns \<Longrightarrow>
   sample_loop obs w ns m rtt =
     sample_loop obs w ns (m + 1)
       (if rtt = -1 \<or> elapsed_of obs (nat m) < rtt then elapsed_of obs (nat m) else rtt)"
  by (subst sample_loop.simps) (simp add: elapsed_of_def Let_def)

lemma min_update:
  "min (if r = -1 \<or> c < r then c else r) M =
     (if r = -1 then min c M else min r (min c (M::int)))"
  by (auto simp: min_def)

lemma sample_loop_min_aux:
  "sample_loop obs w (int (a + Suc k)) (int a) rtt =
     (if rtt = -1 then Min (elapsed_of obs ` {a..<a + Suc k})
      else min rtt (Min (elapsed_of obs ` {a..<a + Suc k})))"
proof (induction k arbitrary: a rtt)
  case 0
  have "sample_loop obs w (int (a + Suc 0)) (int a) rtt =
        sample_loop obs w (int (a + Suc 0)) (int a + 1)
          (if rtt = -1 \<or> elapsed_of obs a < rtt then elapsed_of obs a else rtt)"
    using sample_loop_step [of "int a" "int (a + Suc 0)" obs w rtt] by simp
  also have "\<dots> = (if rtt = -1 \<or> elapsed_of obs a < rtt then elapsed_of obs a else rtt)"
    by (rule sample_loop_exit) simp
  finally show ?case by (simp add: min_def)
next
  case (Suc k)
  let ?c = "elapsed_of obs a"
  let ?r = "if rtt = -1 \<or> ?c < rtt then ?c else rtt"
  let ?M = "Min (elapsed_of obs ` {Suc a..<Suc a + Suc k})"
  have c0: "0 \<le> ?c" by (rule elapsed_of_nonneg)
  have r1: "?r \<noteq> -1" using c0 by auto
  have idx: "int (a + Suc (Suc k)) = int (Suc a + Suc k)" "int a + 1 = int (Suc a)"
    by simp_all
  have "sample_loop obs w (int (a + Suc (Suc k))) (int a) rtt =
        sample_loop obs w (int (a + Suc (Suc k))) (int a + 1) ?r"
    using sample_loop_step [of "int a" "int (a + Suc (Suc k))" obs w rtt] by simp
  also have "\<dots> = sample_loop obs w (int (Suc a + Suc k)) (int (Suc a)) ?r"
    unfolding idx ..
  also have "\<dots> = min ?r ?M"
    unfolding Suc.IH [of "Suc a" ?r] using r1 by simp
  finally have res: "sample_loop obs w (int (a + Suc (Suc k))) (int a) rtt = min ?r ?M" .
  have split: "{a..<a + Suc (Suc k)} = insert a {Suc a..<Suc a + Suc k}"
    by auto
  have "Min (insert ?c (elapsed_of obs ` {Suc a..<Suc a + Suc k})) = min ?c ?M"
    by (rule Min_insert) simp_all
  then have Min_split: "Min (elapsed_of obs ` {a..<a + Suc (Suc k)}) = min ?c ?M"
    unfolding split by simp
  have "min ?r ?M = (if rtt = -1 then min ?c ?M else min rtt (min ?c ?M))"
    by (rule min_update)
  then show ?case unfolding res Min_split .
qed

lemma pair_rtt_pos:
  assumes "0 < ns"
  shows "pair_rtt obs w ns = Min (elapsed_of obs ` {0..<nat ns})"
proof -
  obtain k where k: "nat ns = Suc k"
    using assms by (cases "nat ns") auto
  then have n: "ns = int (0 + Suc k)" using assms by linarith
  show ?thesis
    unfolding pair_rtt_def k
    unfolding n using sample_loop_min_aux [of obs w 0 k "-1"] by simp
qed

lemma pair_rtt_nonpos: "ns \<le> 0 \<Longrightarrow> pair_rtt obs w ns = -1"
  by (simp add: pair_rtt_def sample_loop_exit)

lemma pair_rtt_nonneg:
  assumes "0 < ns"
  shows "0 \<le> pair_rtt obs w ns"
proof -
  have "Min (elapsed_of obs ` {0..<nat ns}) \<in> elapsed_of obs ` {0..<nat ns}"
    using assms by (intro Min_in) auto
  then obtain m where "Min (elapsed_of obs ` {0..<nat ns}) = elapsed_of obs m"
    by auto
  then show ?thesis
    unfolding pair_rtt_pos [OF assms] by (simp add: elapsed_of_nonneg)
qed

subsection \<open>The pair loops\<close>

lemma idx_inj:
  assumes "b < n" "b' < n"
  shows "(a * n + b = a' * n + b') = (a = a' \<and> b = (b'::nat))"
proof
  assume eq: "a * n + b = a' * n + b'"
  have "(a * n + b) div n = a" "(a * n + b) mod n = b" using assms by simp_all
  moreover have "(a' * n + b') div n = a'" "(a' * n + b') mod n = b'" using assms by simp_all
  ultimately show "a = a' \<and> b = b'" using eq by metis
qed simp

lemma idx_lt:
  assumes "a < n" "b < (n::nat)"
  shows "a * n + b < n * n"
proof -
  have "a * n + b < a * n + n" using assms by simp
  also have "\<dots> = Suc a * n" by simp
  also have "\<dots> \<le> n * n" using assms by (intro mult_le_mono1) simp
  finally show ?thesis .
qed

lemma measure_pair_ok:
  "pins_ok e cpus i j \<Longrightarrow>
   measure_pair e cpus w ns i j st =
     Inr \<lparr>data = (data st)[i * length cpus + j := pair_sampler (handoff e i j) w ns,
                           j * length cpus + i := pair_sampler (handoff e i j) w ns],
          measured = measured st @ [(i, j)]\<rparr>"
  by (simp add: measure_pair_def pins_ok_def pinThread_def pair_sampler_def per_hop_def Let_def)

lemma measure_pair_fail:
  "\<not> pins_ok e cpus i j \<Longrightarrow> measure_pair e cpus w ns i j st = Inl pin_failure"
  by (auto simp: measure_pair_def pins_ok_def pinThread_def pin_failure_def Let_def)

lemma inner_loop_exit: "\<not> j < length cpus \<Longrightarrow> inner_loop e cpus w ns i j st = Inr st"
  by (subst inner_loop.simps) simp

lemma inner_loop_step:
  "j < length cpus \<Longrightarrow> pins_ok e cpus i j \<Longrightarrow>
   inner_loop e cpus w ns i j st =
     inner_loop e cpus w ns i (j + 1)
       \<lparr>data = (data st)[i * length cpus + j := pair_sampler (handoff e i j) w ns,
                          j * length cpus + i := pair_sampler (handoff e i j) w ns],
         measured = measured st @ [(i, j)]\<rparr>"
  by (subst inner_loop.simps) (simp add: measure_pair_ok)

lemma inner_loop_fail:
  "j < length cpus \<Longrightarrow> \<not> pins_ok e cpus i j \<Longrightarrow>
   inner_loop e cpus w ns i j st = Inl pin_failure"
  by (subst inner_loop.simps) (simp add: measure_pair_fail)

lemma outer_loop_exit: "\<not> i < length cpus \<Longrightarrow> outer_loop e cpus w ns i st = Inr st"
  by (subst outer_loop.simps) simp

lemma outer_loop_step:
  "i < length cpus \<Longrightarrow>
   outer_loop e cpus w ns i st =
     (case inner_loop e cpus w ns i (i + 1) st of
        Inl f \<Rightarrow> Inl f
      | Inr st' \<Rightarrow> outer_loop e cpus w ns (i + 1) st')"
  by (subst outer_loop.simps) simp

text \<open>A failed run always carries the same report.\<close>

lemma inner_loop_Inl:
  "inner_loop e cpus w ns i j st = Inl f \<Longrightarrow> f = pin_failure"
proof (induction "length cpus - j" arbitrary: j st)
  case 0
  then show ?case by (simp add: inner_loop_exit)
next
  case (Suc k)
  then have j: "j < length cpus" by simp
  show ?case
  proof (cases "pins_ok e cpus i j")
    case True
    have "k = length cpus - (j + 1)" using Suc.hyps(2) by simp
    then show ?thesis
      using Suc.hyps(1) Suc.prems inner_loop_step [OF j True] by metis
  next
    case False
    then show ?thesis using Suc.prems inner_loop_fail [OF j False] by simp
  qed
qed

lemma outer_loop_Inl:
  "outer_loop e cpus w ns i st = Inl f \<Longrightarrow> f = pin_failure"
proof (induction "length cpus - i" arbitrary: i st)
  case 0
  then show ?case by (simp add: outer_loop_exit)
next
  case (Suc k)
  then have i: "i < length cpus" by simp
  have k: "k = length cpus - (i + 1)" using Suc.hyps(2) by simp
  show ?case
  proof (cases "inner_loop e cpus w ns i (i + 1) st")
    case (Inl f')
    then show ?thesis using Suc.prems outer_loop_step [OF i] inner_loop_Inl by simp
  next
    case (Inr st')
    then have "outer_loop e cpus w ns (i + 1) st' = Inl f"
      using Suc.prems outer_loop_step [OF i, of e w ns st] by simp
    then show ?thesis using Suc.hyps(1) [OF k] by simp
  qed
qed

lemma cell_update:
  assumes "length d = n * n" "i < n" "j < n" "a < n" "b < n"
  shows "d[i * n + j := v, j * n + i := v] ! (a * n + b) =
           (if (a = i \<and> b = j) \<or> (a = j \<and> b = i) then v else d ! (a * n + b))"
proof -
  define p q k where "p = i * n + j" and "q = j * n + i" and "k = a * n + b"
  have r1: "p < length d" and r2: "q < length d"
    using assms idx_lt by (simp_all add: p_def q_def)
  have e1: "(q = k) = (j = a \<and> i = b)"
    unfolding q_def k_def using assms by (intro idx_inj)
  have e2: "(p = k) = (i = a \<and> j = b)"
    unfolding p_def k_def using assms by (intro idx_inj)
  have s: "d[p := v, q := v] ! k = (if q = k then v else if p = k then v else d ! k)"
    using r1 r2 by (simp add: nth_list_update)
  have "d[p := v, q := v] ! k = (if (a = i \<and> b = j) \<or> (a = j \<and> b = i) then v else d ! k)"
  proof (cases "q = k")
    case True
    then have "j = a \<and> i = b" using e1 by blast
    then show ?thesis using s True by simp
  next
    case qk: False
    show ?thesis
    proof (cases "p = k")
      case True
      then have "i = a \<and> j = b" using e2 by blast
      then show ?thesis using s True qk by simp
    next
      case False
      then have "\<not> (i = a \<and> j = b)" "\<not> (j = a \<and> i = b)" using e1 e2 qk by blast+
      then have "\<not> ((a = i \<and> b = j) \<or> (a = j \<and> b = i))" by blast
      then show ?thesis using s False qk by (simp only: if_False)
    qed
  qed
  then show ?thesis unfolding p_def q_def k_def .
qed

lemma inner_loop_Inr:
  assumes "inner_loop e cpus w ns i j st = Inr st'" "i < j"
    and "length (data st) = length cpus * length cpus"
  shows "length (data st') = length cpus * length cpus
       \<and> measured st' = measured st @ map (Pair i) [j..<length cpus]
       \<and> (\<forall>a b. a < length cpus \<longrightarrow> b < length cpus \<longrightarrow>
            data st' ! (a * length cpus + b) =
              (if (a = i \<and> j \<le> b) \<or> (b = i \<and> j \<le> a) then latency e w ns a b
               else data st ! (a * length cpus + b)))
       \<and> (\<forall>b. j \<le> b \<longrightarrow> b < length cpus \<longrightarrow> pins_ok e cpus i b)"
  using assms
proof (induction "length cpus - j" arbitrary: j st)
  case 0
  then have "st' = st" by (simp add: inner_loop_exit)
  then show ?case using 0 by auto
next
  case (Suc k)
  let ?n = "length cpus"
  let ?v = "pair_sampler (handoff e i j) w ns"
  let ?st1 = "\<lparr>data = (data st)[i * ?n + j := ?v, j * ?n + i := ?v],
               measured = measured st @ [(i, j)]\<rparr>"
  have j: "j < ?n" using Suc.hyps(2) by simp
  have i: "i < ?n" using j Suc.prems(2) by simp
  have ok: "pins_ok e cpus i j"
  proof (rule ccontr)
    assume "\<not> pins_ok e cpus i j"
    then show False using Suc.prems(1) inner_loop_fail [OF j] by simp
  qed
  have run: "inner_loop e cpus w ns i (j + 1) ?st1 = Inr st'"
    using Suc.prems(1) inner_loop_step [OF j ok, of w ns st] by simp
  have k: "k = ?n - (j + 1)" using Suc.hyps(2) by simp
  have len1: "length (data ?st1) = ?n * ?n" using Suc.prems(3) by simp
  have ij1: "i < j + 1" using Suc.prems(2) by simp
  note IH = Suc.hyps(1) [OF k run ij1 len1]
  have v: "?v = latency e w ns i j" "?v = latency e w ns j i"
    using Suc.prems(2) by (simp_all add: latency_def min_def max_def)
  have cell1: "data ?st1 ! (a * ?n + b) =
      (if (a = i \<and> b = j) \<or> (a = j \<and> b = i) then ?v else data st ! (a * ?n + b))"
    if "a < ?n" "b < ?n" for a b
    using cell_update [OF Suc.prems(3) i j that] by simp
  have A: "length (data st') = ?n * ?n" using IH by simp
  have B: "measured st' = measured st @ map (Pair i) [j..<?n]"
    using IH j by (simp add: upt_conv_Cons)
  have C: "data st' ! (a * ?n + b) =
      (if (a = i \<and> j \<le> b) \<or> (b = i \<and> j \<le> a) then latency e w ns a b
       else data st ! (a * ?n + b))"
    if ab: "a < ?n" "b < ?n" for a b
  proof -
    have "data st' ! (a * ?n + b) =
        (if (a = i \<and> j + 1 \<le> b) \<or> (b = i \<and> j + 1 \<le> a) then latency e w ns a b
         else data ?st1 ! (a * ?n + b))"
      using IH ab by blast
    then show ?thesis
      unfolding cell1 [OF ab] using v Suc.prems(2) by (auto simp: le_Suc_eq)
  qed
  have D: "pins_ok e cpus i b" if "j \<le> b" "b < ?n" for b
  proof (cases "b = j")
    case True
    then show ?thesis using ok by simp
  next
    case False
    then have "j + 1 \<le> b" using that by simp
    then show ?thesis using IH that by blast
  qed
  show ?case using A B C D by blast
qed

lemma outer_loop_Inr:
  assumes "outer_loop e cpus w ns i st = Inr st'"
    and "length (data st) = length cpus * length cpus"
  shows "length (data st') = length cpus * length cpus
       \<and> measured st' =
           measured st @ concat (map (\<lambda>a. map (Pair a) [a + 1..<length cpus]) [i..<length cpus])
       \<and> (\<forall>a b. a < length cpus \<longrightarrow> b < length cpus \<longrightarrow>
            data st' ! (a * length cpus + b) =
              (if a \<noteq> b \<and> i \<le> min a b then latency e w ns a b
               else data st ! (a * length cpus + b)))
       \<and> (\<forall>a b. i \<le> a \<longrightarrow> a < b \<longrightarrow> b < length cpus \<longrightarrow> pins_ok e cpus a b)"
  using assms
proof (induction "length cpus - i" arbitrary: i st)
  case 0
  then have "st' = st" by (simp add: outer_loop_exit)
  then show ?case using 0 by auto
next
  case (Suc k)
  let ?n = "length cpus"
  have i: "i < ?n" using Suc.hyps(2) by simp
  have k: "k = ?n - (i + 1)" using Suc.hyps(2) by simp
  obtain st1 where inner: "inner_loop e cpus w ns i (i + 1) st = Inr st1"
    and outer: "outer_loop e cpus w ns (i + 1) st1 = Inr st'"
    using Suc.prems(1) outer_loop_step [OF i, of e w ns st]
    by (cases "inner_loop e cpus w ns i (i + 1) st") simp_all
  have ii: "i < i + 1" by simp
  note IN = inner_loop_Inr [OF inner ii Suc.prems(2)]
  have len1: "length (data st1) = ?n * ?n" using IN by simp
  note IH = Suc.hyps(1) [OF k outer len1]
  have A: "length (data st') = ?n * ?n" using IH by simp
  have B: "measured st' =
      measured st @ concat (map (\<lambda>a. map (Pair a) [a + 1..<?n]) [i..<?n])"
    using IH IN i by (simp add: upt_conv_Cons)
  have C: "data st' ! (a * ?n + b) =
      (if a \<noteq> b \<and> i \<le> min a b then latency e w ns a b else data st ! (a * ?n + b))"
    if ab: "a < ?n" "b < ?n" for a b
  proof -
    have 1: "data st' ! (a * ?n + b) =
        (if a \<noteq> b \<and> i + 1 \<le> min a b then latency e w ns a b
         else data st1 ! (a * ?n + b))"
      using IH ab by blast
    have 2: "data st1 ! (a * ?n + b) =
        (if (a = i \<and> i + 1 \<le> b) \<or> (b = i \<and> i + 1 \<le> a) then latency e w ns a b
         else data st ! (a * ?n + b))"
      using IN ab by blast
    show ?thesis unfolding 1 2 by (auto simp: min_def)
  qed
  have D: "pins_ok e cpus a b" if "i \<le> a" "a < b" "b < ?n" for a b
  proof (cases "a = i")
    case True
    then show ?thesis using IN that by auto
  next
    case False
    then have "i + 1 \<le> a" using that by simp
    then show ?thesis using IH that by blast
  qed
  show ?case using A B C D by blast
qed

lemma build_Inr:
  assumes "build e cpus w ns = Inr st"
  shows "length (data st) = length cpus * length cpus"
    and "measured st = all_pairs (length cpus)"
    and "a < length cpus \<Longrightarrow> b < length cpus \<Longrightarrow>
         entry (length cpus) st a b = (if a \<noteq> b then latency e w ns a b else 0)"
    and "a < b \<Longrightarrow> b < length cpus \<Longrightarrow> pins_ok e cpus a b"
proof -
  let ?n = "length cpus"
  let ?st0 = "\<lparr>data = replicate (?n * ?n) 0, measured = []\<rparr>"
  have run: "outer_loop e cpus w ns 0 ?st0 = Inr st" using assms by (simp add: build_def)
  have len0: "length (data ?st0) = ?n * ?n" by simp
  note R = outer_loop_Inr [OF run len0]
  show "length (data st) = ?n * ?n" using R by simp
  show "measured st = all_pairs ?n" using R by (simp add: all_pairs_def)
  show "entry ?n st a b = (if a \<noteq> b then latency e w ns a b else 0)"
    if ab: "a < ?n" "b < ?n"
  proof -
    have main: "data st ! (a * ?n + b) =
        (if a \<noteq> b \<and> 0 \<le> min a b then latency e w ns a b else data ?st0 ! (a * ?n + b))"
      using R ab by blast
    have z: "data ?st0 ! (a * ?n + b) = 0"
      using idx_lt [OF ab] by simp
    show ?thesis unfolding entry_def main z by simp
  qed
  show "pins_ok e cpus a b" if "a < b" "b < ?n"
    using R that by blast
qed

lemma build_Inl: "build e cpus w ns = Inl f \<Longrightarrow> f = pin_failure"
  unfolding build_def by (rule outer_loop_Inl)

lemma inner_loop_total:
  "(\<And>b. j \<le> b \<Longrightarrow> b < length cpus \<Longrightarrow> pins_ok e cpus i b) \<Longrightarrow>
   \<exists>st'. inner_loop e cpus w ns i j st = Inr st'"
proof (induction "length cpus - j" arbitrary: j st)
  case 0
  then show ?case by (simp add: inner_loop_exit)
next
  case (Suc k)
  have j: "j < length cpus" using Suc.hyps(2) by simp
  have ok: "pins_ok e cpus i j" using Suc.prems j by simp
  have k: "k = length cpus - (j + 1)" using Suc.hyps(2) by simp
  have "\<exists>st'. inner_loop e cpus w ns i (j + 1) st1 = Inr st'" for st1
    using Suc.hyps(1) [OF k] Suc.prems by simp
  then show ?case unfolding inner_loop_step [OF j ok] by blast
qed

lemma outer_loop_total:
  "(\<And>a b. i \<le> a \<Longrightarrow> a < b \<Longrightarrow> b < length cpus \<Longrightarrow> pins_ok e cpus a b) \<Longrightarrow>
   \<exists>st'. outer_loop e cpus w ns i st = Inr st'"
proof (induction "length cpus - i" arbitrary: i st)
  case 0
  then show ?case by (simp add: outer_loop_exit)
next
  case (Suc k)
  have i: "i < length cpus" using Suc.hyps(2) by simp
  have k: "k = length cpus - (i + 1)" using Suc.hyps(2) by simp
  obtain st1 where inner: "inner_loop e cpus w ns i (i + 1) st = Inr st1"
    using inner_loop_total [of "i + 1" cpus e i w ns st] Suc.prems by auto
  have "\<exists>st'. outer_loop e cpus w ns (i + 1) st1 = Inr st'"
    using Suc.hyps(1) [OF k] Suc.prems by simp
  then show ?case unfolding outer_loop_step [OF i] inner by simp
qed

lemma build_total:
  "(\<And>a b. a < b \<Longrightarrow> b < length cpus \<Longrightarrow> pins_ok e cpus a b) \<Longrightarrow>
   \<exists>st. build e cpus w ns = Inr st"
  unfolding build_def by (rule outer_loop_total) simp

lemma set_pairs_from:
  "set (concat (map (\<lambda>i. map (Pair i) [i + 1..<n]) [k..<n])) = {(i, j). k \<le> i \<and> i < j \<and> j < n}"
proof (intro set_eqI iffI)
  fix p
  assume "p \<in> set (concat (map (\<lambda>i. map (Pair i) [i + 1..<n]) [k..<n]))"
  then show "p \<in> {(i, j). k \<le> i \<and> i < j \<and> j < n}" by auto
next
  fix p :: "nat \<times> nat"
  obtain a b where p: "p = (a, b)" by (cases p)
  assume "p \<in> {(i, j). k \<le> i \<and> i < j \<and> j < n}"
  then have ab: "k \<le> a" "a < b" "b < n" using p by simp_all
  have A: "a \<in> set [k..<n]" using ab by simp
  have B: "(a, b) \<in> set (map (Pair a) [a + 1..<n])" using ab by simp
  have "(\<lambda>i. map (Pair i) [i + 1..<n]) a \<in> (\<lambda>i. map (Pair i) [i + 1..<n]) ` set [k..<n]"
    using A by (rule imageI)
  then have C: "map (Pair a) [a + 1..<n] \<in> set (map (\<lambda>i. map (Pair i) [i + 1..<n]) [k..<n])"
    by (simp only: set_map)
  have "(a, b) \<in> (\<Union>x\<in>set (map (\<lambda>i. map (Pair i) [i + 1..<n]) [k..<n]). set x)"
    using C B by (rule UN_I)
  then show "p \<in> set (concat (map (\<lambda>i. map (Pair i) [i + 1..<n]) [k..<n]))"
    unfolding p set_concat .
qed

lemma distinct_pairs_from:
  "distinct (concat (map (\<lambda>i. map (Pair i) [i + 1..<n]) [k..<n]))"
proof (induction "n - k" arbitrary: k)
  case 0
  then show ?case by simp
next
  case (Suc d)
  have k: "k < n" using Suc.hyps(2) by simp
  have d: "d = n - Suc k" using Suc.hyps(2) by simp
  have row: "distinct (map (Pair k) [k + 1..<n])"
    by (simp add: distinct_map inj_on_def)
  have disj: "set (map (Pair k) [k + 1..<n]) \<inter>
      set (concat (map (\<lambda>i. map (Pair i) [i + 1..<n]) [Suc k..<n])) = {}"
    unfolding set_pairs_from by auto
  show ?case
    using k row disj Suc.hyps(1) [OF d] by (simp add: upt_conv_Cons)
qed

lemma length_pairs_from:
  "2 * length (concat (map (\<lambda>i. map (Pair i) [i + 1..<n]) [k..<n])) = (n - k) * (n - k - 1)"
proof (induction "n - k" arbitrary: k)
  case 0
  then show ?case by simp
next
  case (Suc d)
  have k: "k < n" using Suc.hyps(2) by simp
  have d: "d = n - Suc k" using Suc.hyps(2) by simp
  have nk: "n - k = Suc d" using Suc.hyps(2) by simp
  have "2 * length (concat (map (\<lambda>i. map (Pair i) [i + 1..<n]) [k..<n])) =
        2 * (n - Suc k) + 2 * length (concat (map (\<lambda>i. map (Pair i) [i + 1..<n]) [Suc k..<n]))"
    using k by (simp add: upt_conv_Cons)
  also have "\<dots> = 2 * d + d * (d - 1)"
    using Suc.hyps(1) [OF d] d by simp
  also have "\<dots> = Suc d * d"
    by (cases d) simp_all
  finally show ?case using nk by simp
qed

lemma set_all_pairs: "set (all_pairs n) = {(i, j). i < j \<and> j < n}"
  unfolding all_pairs_def set_pairs_from by simp

lemma distinct_all_pairs: "distinct (all_pairs n)"
  unfolding all_pairs_def by (rule distinct_pairs_from)

lemma length_all_pairs: "length (all_pairs n) = n * (n - 1) div 2"
  using length_pairs_from [of n 0] unfolding all_pairs_def by simp

lemma pair_sampler_pos:
  "0 < ns \<Longrightarrow> pair_sampler obs w ns = min_elapsed obs ns div 200"
  by (simp add: pair_sampler_def per_hop_nonneg pair_rtt_nonneg)
     (simp add: pair_rtt_pos min_elapsed_def)

lemma pair_sampler_nonpos: "ns \<le> 0 \<Longrightarrow> pair_sampler obs w ns = 0"
  by (simp add: pair_sampler_def pair_rtt_nonpos per_hop_def c_div_def)

lemma pair_sampler_nonneg: "0 \<le> pair_sampler obs w ns"
proof (cases "0 < ns")
  case True
  then show ?thesis
    by (simp add: pair_sampler_def per_hop_nonneg pair_rtt_nonneg pos_imp_zdiv_nonneg_iff)
next
  case False
  then show ?thesis by (simp add: pair_sampler_nonpos)
qed

lemma min_elapsed_nonneg: "0 < ns \<Longrightarrow> 0 \<le> min_elapsed obs ns"
  using pair_rtt_nonneg [of ns obs False] by (simp add: pair_rtt_pos min_elapsed_def)

lemma min_elapsed_antimono:
  assumes "0 < n1" "n1 \<le> n2"
  shows "min_elapsed obs n2 \<le> min_elapsed obs n1"
  unfolding min_elapsed_def
proof (rule Min_antimono)
  show "elapsed_of obs ` {0..<nat n1} \<subseteq> elapsed_of obs ` {0..<nat n2}"
    using assms by (intro image_mono) auto
  show "elapsed_of obs ` {0..<nat n1} \<noteq> {}" using assms by simp
  show "finite (elapsed_of obs ` {0..<nat n2})" by simp
qed

lemma exact_fits: "exact_in_double obs ns \<Longrightarrow> fits_long_long obs ns"
proof -
  assume x: "exact_in_double obs ns"
  have "elapsed_of obs m < 9223372036854775808" if "m \<in> {0..<nat ns}" for m
  proof -
    have "snd (obs m) < 9007199254740992" using x that by (simp add: exact_in_double_def)
    then show ?thesis by (simp add: elapsed_of_eq)
  qed
  then show ?thesis by (simp add: fits_long_long_def)
qed

lemma min_elapsed_exact:
  assumes "exact_in_double obs ns"
  shows "min_elapsed obs ns = Min ((\<lambda>m. int (snd (obs m))) ` {0..<nat ns})"
proof -
  have "elapsed_of obs ` {0..<nat ns} = (\<lambda>m. int (snd (obs m))) ` {0..<nat ns}"
  proof (rule image_cong [OF refl])
    fix m assume "m \<in> {0..<nat ns}"
    then have "snd (obs m) < 9007199254740992"
      using assms by (simp add: exact_in_double_def)
    then show "elapsed_of obs m = int (snd (obs m))" by (rule elapsed_of_eq)
  qed
  then show ?thesis by (simp add: min_elapsed_def)
qed

text \<open>
  Beyond \<open>2^53\<close> ns the sum is rounded: a round of 9007199254740999 ns lies half-way
  between two doubles and is computed as 9007199254741000.
\<close>

lemma double_sum_rounded:
  "to_double (to_double (to_double 9007199 * 1000000000) + to_double 254740999) = 9007199254741000"
proof -
  have a: "to_double 9007199 = 9007199" "to_double 254740999 = 254740999"
    "to_double (9007199 * 1000000000) = 9007199 * 1000000000"
    by (simp_all add: to_double_exact)
  have u: "ulp 9007199254740999 = 2"
    by (subst ulp.simps, simp) (subst ulp.simps, simp)
  have "round_nat 9007199254740999 = 9007199254741000"
    by (simp add: round_nat_def u Let_def)
  then show ?thesis using a by (simp add: to_double_def)
qed

lemma elapsed_rounded:
  "elapsed_of (every_round 9007199254740999) 0 = 9007199254741000"
  using double_sum_rounded
  by (simp add: elapsed_of_def every_round_def elapsed_ns_def clock_gettime_def)

lemma data_cell:
  assumes "build e cpus w ns = Inr st" "x \<in> set (data st)"
  shows "\<exists>a b. a < length cpus \<and> b < length cpus \<and> x = entry (length cpus) st a b"
proof -
  let ?n = "length cpus"
  obtain k where k: "k < length (data st)" "x = data st ! k"
    using assms(2) by (auto simp: in_set_conv_nth)
  have len: "length (data st) = ?n * ?n" using assms(1) by (rule build_Inr(1))
  have n0: "0 < ?n" using k(1) len by (cases "?n") simp_all
  have "k div ?n < ?n" using k(1) len by (simp add: less_mult_imp_div_less)
  moreover have "k mod ?n < ?n" using n0 by simp
  moreover have "x = entry ?n st (k div ?n) (k mod ?n)"
    using k(2) by (simp add: entry_def)
  ultimately show ?thesis by blast
qed

lemma count_list_distinct:
  "distinct xs \<Longrightarrow> count_list xs x = (if x \<in> set xs then 1 else 0)"
  by (induction xs) auto

subsection \<open>Properties of the sampler and the matrix\<close>

text \<open>
  C1. With a positive sample count, and every elapsed time of the pair in the range of
  \<^verbatim>\<open>long long\<close>, the value the sample loop and the final division produce for a pair is
  the least elapsed time of its rounds, as lines 212-214 and 241-243 compute it, divided by
  200 in the truncating division of C; \<open>rtt / 2 / 100\<close> is that quotient for every \<open>rtt\<close>;
  when every round takes less than \<open>2^53\<close> ns the computed elapsed times are the differences
  of the clock readings themselves, so the value is the least of these differences divided
  by 200; and the matrix of a completed run holds the value in both entries of the pair.
\<close>

theorem pair_latency_is_min_elapsed_over_200:
  assumes "0 < ns" and "fits_long_long obs ns"
  shows "pair_sampler obs w ns = c_div (min_elapsed obs ns) 200
       \<and> pair_sampler obs w ns = min_elapsed obs ns div 200
       \<and> c_div (c_div rtt 2) 100 = c_div rtt 200
       \<and> (exact_in_double obs ns \<longrightarrow>
            min_elapsed obs ns = Min ((\<lambda>m. int (snd (obs m))) ` {0..<nat ns}) \<and>
            pair_sampler obs w ns = Min ((\<lambda>m. int (snd (obs m))) ` {0..<nat ns}) div 200)
       \<and> (build e cpus w ns = Inr st \<longrightarrow> i < j \<longrightarrow> j < length cpus \<longrightarrow>
            (\<forall>p q. p < q \<and> q < length cpus \<longrightarrow> fits_long_long (handoff e p q) ns) \<longrightarrow>
            entry (length cpus) st i j = c_div (min_elapsed (handoff e i j) ns) 200 \<and>
            entry (length cpus) st j i = c_div (min_elapsed (handoff e i j) ns) 200)"
proof -
  have val: "pair_sampler obs' w ns = c_div (min_elapsed obs' ns) 200" for obs'
    using assms(1) by (simp add: pair_sampler_pos c_div_nonneg min_elapsed_nonneg)
  have quot: "c_div (c_div rtt 2) 100 = c_div rtt 200"
    using per_hop_c_div [of rtt] by (simp add: per_hop_def)
  have flo: "pair_sampler obs w ns = min_elapsed obs ns div 200"
    using assms(1) by (rule pair_sampler_pos)
  have ex: "min_elapsed obs ns = Min ((\<lambda>m. int (snd (obs m))) ` {0..<nat ns}) \<and>
            pair_sampler obs w ns = Min ((\<lambda>m. int (snd (obs m))) ` {0..<nat ns}) div 200"
    if "exact_in_double obs ns"
    using min_elapsed_exact [OF that] flo by simp
  have cells: "entry (length cpus) st i j = c_div (min_elapsed (handoff e i j) ns) 200 \<and>
               entry (length cpus) st j i = c_div (min_elapsed (handoff e i j) ns) 200"
    if run: "build e cpus w ns = Inr st" and ij: "i < j" "j < length cpus"
  proof -
    have i: "i < length cpus" using ij by simp
    have "entry (length cpus) st i j = latency e w ns i j"
      using build_Inr(3) [OF run i ij(2)] ij by simp
    moreover have "entry (length cpus) st j i = latency e w ns j i"
      using build_Inr(3) [OF run ij(2) i] ij by simp
    moreover have "latency e w ns i j = pair_sampler (handoff e i j) w ns"
      "latency e w ns j i = pair_sampler (handoff e i j) w ns"
      using ij by (simp_all add: latency_def min_def max_def)
    ultimately show ?thesis using val by simp
  qed
  show ?thesis using val flo quot ex cells by blast
qed

theorem pair_latency_is_min_elapsed_over_200_witness:
  "(0::int) < 3
   \<and> fits_long_long (\<lambda>m. (1000 * m, 900 - 100 * m)) 3
   \<and> exact_in_double (\<lambda>m. (1000 * m, 900 - 100 * m)) 3
   \<and> Min ((\<lambda>m. int (900 - 100 * m)) ` {0..<3}) = 700
   \<and> pair_sampler (\<lambda>m. (1000 * m, 900 - 100 * m)) False 3 = 3
   \<and> c_div (c_div (-1) 2) 100 = c_div (-1) 200
   \<and> (\<exists>st. build \<lparr>sched_setaffinity = \<lambda>i j c cpu. 0,
                    handoff = \<lambda>i j m. (1000 * m, 900 - 100 * m)\<rparr> [0, 1] False 3 = Inr st
          \<and> entry 2 st 0 1 = 3 \<and> entry 2 st 1 0 = 3)
   \<and> (0::int) < 1
   \<and> fits_long_long (every_round 9007199254740999) 1
   \<and> \<not> exact_in_double (every_round 9007199254740999) 1
   \<and> min_elapsed (every_round 9007199254740999) 1 = 9007199254741000
   \<and> pair_sampler (every_round 9007199254740999) False 1 = 45035996273705"
proof -
  let ?obs = "\<lambda>m::nat. (1000 * m, 900 - 100 * m)"
  let ?e = "\<lparr>sched_setaffinity = \<lambda>(i::nat) (j::nat) (c::ctx) (cpu::int). 0::int,
            handoff = \<lambda>(i::nat) (j::nat). ?obs\<rparr>"
  have h: "(0::int) < 3" by simp
  have "900 - 100 * m < (9007199254740992::nat)" for m :: nat
    using diff_le_self [of 900 "100 * m"] by linarith
  then have x: "exact_in_double ?obs 3" by (simp add: exact_in_double_def)
  have f: "fits_long_long ?obs 3" using x by (rule exact_fits)
  have fs: "\<forall>p q. p < q \<and> q < length [0, 1::int] \<longrightarrow> fits_long_long (handoff ?e p q) 3"
    using f by simp
  have s: "{0..<3::nat} = {0, 1, 2}" by auto
  have mn: "Min ((\<lambda>m. int (900 - 100 * m)) ` {0..<3}) = 700" unfolding s by simp
  obtain st where run: "build ?e [0, 1] False 3 = Inr st"
    using build_total [of "[0, 1]" ?e False 3] by (auto simp: pins_ok_def)
  note T = pair_latency_is_min_elapsed_over_200 [OF h f, of False "-1" ?e "[0, 1]" st 0 1]
  have m: "min_elapsed ?obs 3 = 700" using T x mn by simp
  have "entry 2 st 0 1 = 3 \<and> entry 2 st 1 0 = 3"
    using T run fs m by (simp add: numeral_2_eq_2 c_div_def)
  moreover have "pair_sampler ?obs False 3 = 3" using T m by simp
  moreover have "c_div (c_div (-1) 2) 100 = c_div (-1) 200" using T by blast
  ultimately have first: "pair_sampler ?obs False 3 = 3
      \<and> c_div (c_div (-1) 2) 100 = c_div (-1) 200
      \<and> (\<exists>st. build ?e [0, 1] False 3 = Inr st \<and> entry 2 st 0 1 = 3 \<and> entry 2 st 1 0 = 3)"
    using run by blast
  have h1: "(0::int) < 1" by simp
  have s1: "{0..<1::nat} = {0}" by auto
  have f1: "fits_long_long (every_round 9007199254740999) 1"
    by (simp add: fits_long_long_def elapsed_rounded)
  have x1: "\<not> exact_in_double (every_round 9007199254740999) 1"
    by (simp add: exact_in_double_def every_round_def)
  have m1: "min_elapsed (every_round 9007199254740999) 1 = 9007199254741000"
    by (simp add: min_elapsed_def elapsed_rounded s1)
  have "pair_sampler (every_round 9007199254740999) False 1
      = min_elapsed (every_round 9007199254740999) 1 div 200"
    using pair_latency_is_min_elapsed_over_200 [OF h1 f1, of False] by blast
  then have v1: "pair_sampler (every_round 9007199254740999) False 1 = 45035996273705"
    unfolding m1 by simp
  show ?thesis using h f x mn first h1 f1 x1 m1 v1 by blast
qed

text \<open>
  C2. In the matrix of a completed run, the entries of two distinct positions mirror each
  other: both hold the one value measured for the unordered pair.
\<close>

theorem matrix_symmetric:
  assumes "build e cpus w ns = Inr st"
    and "i < length cpus" "j < length cpus" "i \<noteq> j"
  shows "entry (length cpus) st i j = entry (length cpus) st j i
       \<and> entry (length cpus) st i j =
           pair_sampler (handoff e (min i j) (max i j)) w ns"
proof -
  have "entry (length cpus) st i j = latency e w ns i j"
    using build_Inr(3) [OF assms(1) assms(2) assms(3)] assms(4) by simp
  moreover have "entry (length cpus) st j i = latency e w ns j i"
    using build_Inr(3) [OF assms(1) assms(3) assms(2)] assms(4) by simp
  moreover have "latency e w ns j i = latency e w ns i j"
    by (simp add: latency_def min.commute max.commute)
  ultimately show ?thesis by (simp add: latency_def)
qed

theorem matrix_symmetric_witness:
  "\<exists>st. build \<lparr>sched_setaffinity = \<lambda>i j c cpu. 0,
                 handoff = \<lambda>i j m. (1000 * m, 1000 * i + 100 * j + m)\<rparr> [4, 5, 6] True 2 = Inr st
        \<and> entry 3 st 2 1 = entry 3 st 1 2 \<and> entry 3 st 2 1 = 6"
proof -
  let ?e = "\<lparr>sched_setaffinity = \<lambda>(i::nat) (j::nat) (c::ctx) (cpu::int). 0::int,
            handoff = \<lambda>(i::nat) (j::nat) (m::nat). (1000 * m, 1000 * i + 100 * j + m)\<rparr>"
  obtain st where run: "build ?e [4, 5, 6] True 2 = Inr st"
    using build_total [of "[4, 5, 6]" ?e True 2] by (auto simp: pins_ok_def)
  have s: "{0..<2::nat} = {0, 1}" by auto
  have v: "pair_sampler (\<lambda>m. (1000 * m, 1200 + m)) True 2 = 6"
    by (simp add: pair_sampler_pos min_elapsed_def elapsed_of_eq s)
  have "entry (length [4, 5, 6::int]) st 2 1 = entry (length [4, 5, 6::int]) st 1 2
      \<and> entry (length [4, 5, 6::int]) st 2 1 = pair_sampler (handoff ?e (min 2 1) (max 2 1)) True 2"
    using matrix_symmetric [OF run, of 2 1] by simp
  then have "entry 3 st 2 1 = entry 3 st 1 2 \<and> entry 3 st 2 1 = 6"
    using v by (simp add: numeral_3_eq_3)
  then show ?thesis using run by blast
qed

text \<open>
  C3. A completed run over \<open>n\<close> CPUs runs the sample loop for the pairs of positions
  \<open>(i, j)\<close> with \<open>i < j < n\<close>, each exactly once and in loop order, \<open>n * (n - 1) / 2\<close> times in
  all, never for a pair \<open>(i, i)\<close>, and leaves every diagonal entry at the 0 of \<open>calloc\<close>.
\<close>

theorem pairs_measured_once:
  assumes "build e cpus w ns = Inr st"
  shows "measured st = all_pairs (length cpus)
       \<and> (\<forall>i j. count_list (measured st) (i, j) = (if i < j \<and> j < length cpus then 1 else 0))
       \<and> length (measured st) = length cpus * (length cpus - 1) div 2
       \<and> (\<forall>i. (i, i) \<notin> set (measured st))
       \<and> (\<forall>i < length cpus. entry (length cpus) st i i = 0)"
proof -
  have m: "measured st = all_pairs (length cpus)" using assms by (rule build_Inr(2))
  have c: "count_list (measured st) (i, j) = (if i < j \<and> j < length cpus then 1 else 0)" for i j
    unfolding m by (simp add: count_list_distinct distinct_all_pairs set_all_pairs)
  have l: "length (measured st) = length cpus * (length cpus - 1) div 2"
    unfolding m by (rule length_all_pairs)
  have s: "(i, i) \<notin> set (measured st)" for i
    unfolding m by (simp add: set_all_pairs)
  have d: "entry (length cpus) st i i = 0" if "i < length cpus" for i
    using build_Inr(3) [OF assms that that] by simp
  show ?thesis using m c l s d by blast
qed

theorem pairs_measured_once_witness:
  "\<exists>st. build \<lparr>sched_setaffinity = \<lambda>i j c cpu. 0,
                 handoff = \<lambda>i j m. (1000 * m, 100 * i + 10 * j + m)\<rparr> [4, 5, 6] False 2 = Inr st
        \<and> measured st = [(0, 1), (0, 2), (1, 2)]
        \<and> count_list (measured st) (0, 2) = 1 \<and> count_list (measured st) (2, 0) = 0
        \<and> length (measured st) = 3
        \<and> entry 3 st 1 1 = 0"
proof -
  let ?e = "\<lparr>sched_setaffinity = \<lambda>(i::nat) (j::nat) (c::ctx) (cpu::int). 0::int,
            handoff = \<lambda>(i::nat) (j::nat) (m::nat). (1000 * m, 100 * i + 10 * j + m)\<rparr>"
  obtain st where run: "build ?e [4, 5, 6] False 2 = Inr st"
    using build_total [of "[4, 5, 6]" ?e False 2] by (auto simp: pins_ok_def)
  note T = pairs_measured_once [OF run]
  have a: "all_pairs (length [4, 5, 6::int]) = [(0, 1), (0, 2), (1, 2)]"
    by (simp add: all_pairs_def upt_conv_Cons)
  have m: "measured st = [(0, 1), (0, 2), (1, 2)]" using T a by simp
  have e: "entry 3 st 1 1 = 0" using T by (simp add: numeral_3_eq_3)
  show ?thesis using run m e by simp
qed

text \<open>
  C4. With a positive sample count, every element of the array of a completed run is
  non-negative, so none is the sentinel -1; the array has \<open>ncpus * ncpus\<close> elements.
\<close>

theorem entries_nonnegative:
  assumes "0 < ns" and "build e cpus w ns = Inr st"
  shows "(\<forall>x \<in> set (data st). 0 \<le> x) \<and> -1 \<notin> set (data st)
       \<and> length (data st) = length cpus * length cpus"
proof -
  have nn: "0 \<le> x" if xin: "x \<in> set (data st)" for x
  proof -
    obtain a b where ab: "a < length cpus" "b < length cpus"
      and x: "x = entry (length cpus) st a b"
      using data_cell [OF assms(2) xin] by blast
    show ?thesis
      unfolding x build_Inr(3) [OF assms(2) ab]
      by (simp add: latency_def pair_sampler_nonneg)
  qed
  then have "-1 \<notin> set (data st)" by fastforce
  then show ?thesis using nn build_Inr(1) [OF assms(2)] by blast
qed

theorem entries_nonnegative_witness:
  "(0::int) < 2 \<and>
   (\<exists>st. build \<lparr>sched_setaffinity = \<lambda>i j c cpu. 0,
                  handoff = \<lambda>i j m. (1000 * m, 100 * i + 10 * j + m)\<rparr> [4, 5, 6] False 2 = Inr st
        \<and> (\<forall>k < length (data st). 0 \<le> data st ! k) \<and> -1 \<notin> set (data st)
        \<and> length (data st) = 9)"
proof -
  let ?e = "\<lparr>sched_setaffinity = \<lambda>(i::nat) (j::nat) (c::ctx) (cpu::int). 0::int,
            handoff = \<lambda>(i::nat) (j::nat) (m::nat). (1000 * m, 100 * i + 10 * j + m)\<rparr>"
  have h: "(0::int) < 2" by simp
  obtain st where run: "build ?e [4, 5, 6] False 2 = Inr st"
    using build_total [of "[4, 5, 6]" ?e False 2] by (auto simp: pins_ok_def)
  note T = entries_nonnegative [OF h run]
  have "\<forall>k < length (data st). 0 \<le> data st ! k" using T by simp
  moreover have "-1 \<notin> set (data st)" using T by blast
  moreover have "length (data st) = 9" using T by simp
  ultimately show ?thesis using h run by blast
qed

text \<open>
  The sample count is taken from the command line as it is (line 119), 0 included. With
  no round the loop leaves the sentinel and the value is 0; one round of 700 ns gives 3.
  So one sample more can make the reported value larger.
\<close>

theorem one_sample_more_is_larger_counterexample:
  "(0::int) \<le> 1
   \<and> pair_sampler (every_round 700) False 0 = 0
   \<and> pair_sampler (every_round 700) False 1 = 3
   \<and> \<not> pair_sampler (every_round 700) False 1 \<le> pair_sampler (every_round 700) False 0"
proof -
  have a: "pair_sampler (every_round 700) False 0 = 0" by (simp add: pair_sampler_nonpos)
  have s: "{0..<1::nat} = {0}" by auto
  have b: "pair_sampler (every_round 700) False 1 = 3"
    by (simp add: pair_sampler_pos min_elapsed_def elapsed_of_eq every_round_def s)
  show ?thesis unfolding a b by simp
qed

text \<open>
  C5, as the code has it. For one sequence of observations and sample counts \<open>n1 \<le> n2\<close>:
  when \<open>n1\<close> is positive, or \<open>n2\<close> is not, the value reported with \<open>n2\<close> samples is at most
  the value reported with \<open>n1\<close> samples; when \<open>n1\<close> is 0 or less and \<open>n2\<close> is positive, the value
  with \<open>n1\<close> samples is 0, the value with \<open>n2\<close> samples is the least elapsed time of its rounds
  divided by 200, and it is the larger of the two.
\<close>

theorem more_samples_never_larger:
  assumes "n1 \<le> n2"
  shows "(0 < n1 \<or> n2 \<le> 0 \<longrightarrow> pair_sampler obs w n2 \<le> pair_sampler obs w n1)
       \<and> (n1 \<le> 0 \<and> 0 < n2 \<longrightarrow>
            pair_sampler obs w n1 = 0 \<and>
            pair_sampler obs w n2 = min_elapsed obs n2 div 200 \<and>
            pair_sampler obs w n1 \<le> pair_sampler obs w n2)"
proof -
  have pos: "pair_sampler obs w n2 \<le> pair_sampler obs w n1" if "0 < n1"
  proof -
    have "min_elapsed obs n2 div 200 \<le> min_elapsed obs n1 div 200"
      using min_elapsed_antimono [OF that assms] by (rule zdiv_mono1) simp
    then show ?thesis using that assms by (simp add: pair_sampler_pos)
  qed
  have non: "pair_sampler obs w n2 \<le> pair_sampler obs w n1" if "n2 \<le> 0"
    using that assms by (simp add: pair_sampler_nonpos)
  have mix: "pair_sampler obs w n1 = 0 \<and>
            pair_sampler obs w n2 = min_elapsed obs n2 div 200 \<and>
            pair_sampler obs w n1 \<le> pair_sampler obs w n2"
    if "n1 \<le> 0" "0 < n2"
    using that pair_sampler_nonneg [of obs w n2]
    by (simp add: pair_sampler_nonpos pair_sampler_pos)
  show ?thesis using pos non mix by blast
qed

theorem more_samples_never_larger_witness:
  "(1::int) \<le> 2 \<and> (0::int) < 1
   \<and> pair_sampler (\<lambda>m. (1000 * m, [700, 300] ! m)) False 2
       \<le> pair_sampler (\<lambda>m. (1000 * m, [700, 300] ! m)) False 1
   \<and> (0::int) \<le> 1 \<and> (0::int) \<le> 0 \<and> (0::int) < 1
   \<and> pair_sampler (every_round 700) False 0 = 0
   \<and> pair_sampler (every_round 700) False 0 \<le> pair_sampler (every_round 700) False 1"
proof -
  have h: "(1::int) \<le> 2" "(0::int) < 1" "(0::int) \<le> 1" "(0::int) \<le> 0" by simp_all
  have a: "pair_sampler (\<lambda>m. (1000 * m, [700, 300] ! m)) False 2
       \<le> pair_sampler (\<lambda>m. (1000 * m, [700, 300] ! m)) False 1"
    using more_samples_never_larger [OF h(1), of "\<lambda>m. (1000 * m, [700, 300] ! m)" False] by simp
  have b: "pair_sampler (every_round 700) False 0 = 0
         \<and> pair_sampler (every_round 700) False 0 \<le> pair_sampler (every_round 700) False 1"
    using more_samples_never_larger [OF h(3), of "every_round 700" False] by simp
  show ?thesis using h a b by blast
qed

text \<open>
  C8. A rejected affinity request makes \<open>pinThread\<close> end the process with the report
  \<open>sched_setaffinity\<close> and exit status 1; a run in which the request of either thread of
  some pair is rejected ends this way and yields no matrix.
\<close>

theorem pin_failure_is_fatal:
  "(setaffinity cpu = -1 \<longrightarrow>
      pinThread setaffinity cpu = Inl \<lparr>report = ''sched_setaffinity'', status = 1\<rparr>)
   \<and> (i < j \<and> j < length cpus \<and>
        (sched_setaffinity e i j Responder (cpus ! i) = -1 \<or>
         sched_setaffinity e i j Initiator (cpus ! j) = -1) \<longrightarrow>
      build e cpus w ns = Inl \<lparr>report = ''sched_setaffinity'', status = 1\<rparr>)
   \<and> status \<lparr>report = ''sched_setaffinity'', status = 1\<rparr> \<noteq> 0"
proof -
  have pin: "pinThread setaffinity cpu = Inl \<lparr>report = ''sched_setaffinity'', status = 1\<rparr>"
    if "setaffinity cpu = -1"
    using that by (simp add: pinThread_def)
  have run: "build e cpus w ns = Inl \<lparr>report = ''sched_setaffinity'', status = 1\<rparr>"
    if ij: "i < j" "j < length cpus"
      and bad: "sched_setaffinity e i j Responder (cpus ! i) = -1 \<or>
                sched_setaffinity e i j Initiator (cpus ! j) = -1"
  proof (cases "build e cpus w ns")
    case (Inl f)
    then show ?thesis using build_Inl [OF Inl] by (simp add: pin_failure_def)
  next
    case (Inr st)
    have "pins_ok e cpus i j" using build_Inr(4) [OF Inr ij] .
    then show ?thesis using bad by (auto simp: pins_ok_def)
  qed
  show ?thesis using pin run by simp
qed

theorem pin_failure_is_fatal_witness:
  "pinThread (\<lambda>cpu. if cpu = 5 then -1 else 0) 5 = Inl \<lparr>report = ''sched_setaffinity'', status = 1\<rparr>
   \<and> build \<lparr>sched_setaffinity = \<lambda>i j c cpu. if cpu = 5 then -1 else 0,
             handoff = \<lambda>i j m. (1000 * m, 100 * i + 10 * j + m)\<rparr> [4, 5, 6] False 2
       = Inl \<lparr>report = ''sched_setaffinity'', status = 1\<rparr>"
  using pin_failure_is_fatal [of "\<lambda>cpu. if cpu = 5 then -1 else 0" 5 0 1 "[4, 5, 6]"
      "\<lparr>sched_setaffinity = \<lambda>i j c cpu. if cpu = 5 then -1 else 0,
         handoff = \<lambda>i j m. (1000 * m, 100 * i + 10 * j + m)\<rparr>" False 2]
  by simp

text \<open>
  C10. With a sample count of 0 or less the sample loop runs no round and leaves
  \<open>rtt\<close> at -1; \<open>(-1) / 2 / 100\<close> is 0 in C, so the value of the pair is 0, and both entries
  of the pair in the matrix of a completed run are 0, not -1.
\<close>

theorem no_samples_store_zero:
  assumes "ns \<le> 0"
  shows "sample_loop obs w ns 0 (-1) = -1
       \<and> c_div (c_div (-1) 2) 100 = 0
       \<and> pair_sampler obs w ns = 0
       \<and> (build e cpus w ns = Inr st \<longrightarrow> i < j \<longrightarrow> j < length cpus \<longrightarrow>
            entry (length cpus) st i j = 0 \<and> entry (length cpus) st j i = 0)"
proof -
  have a: "sample_loop obs w ns 0 (-1) = -1"
    using assms by (simp add: sample_loop_exit)
  have b: "c_div (c_div (-1) 2) 100 = 0" by (simp add: c_div_def)
  have c: "pair_sampler obs' w ns = 0" for obs'
    using assms by (rule pair_sampler_nonpos)
  have d: "entry (length cpus) st i j = 0 \<and> entry (length cpus) st j i = 0"
    if run: "build e cpus w ns = Inr st" and ij: "i < j" "j < length cpus"
  proof -
    have i: "i < length cpus" using ij by simp
    show ?thesis
      unfolding build_Inr(3) [OF run i ij(2)] build_Inr(3) [OF run ij(2) i]
      using ij by (simp add: latency_def c)
  qed
  show ?thesis using a b c d by blast
qed

theorem no_samples_store_zero_witness:
  "(0::int) \<le> 0
   \<and> sample_loop (\<lambda>m. (1000 * m, 700)) False 0 0 (-1) = -1
   \<and> pair_sampler (\<lambda>m. (1000 * m, 700)) False 0 = 0
   \<and> (\<exists>st. build \<lparr>sched_setaffinity = \<lambda>i j c cpu. 0,
                    handoff = \<lambda>i j m. (1000 * m, 700)\<rparr> [4, 5, 6] False 0 = Inr st
          \<and> entry 3 st 0 2 = 0 \<and> entry 3 st 2 0 = 0 \<and> -1 \<notin> set (data st))"
proof -
  let ?e = "\<lparr>sched_setaffinity = \<lambda>(i::nat) (j::nat) (c::ctx) (cpu::int). 0::int,
            handoff = \<lambda>(i::nat) (j::nat) (m::nat). (1000 * m, 700::nat)\<rparr>"
  have h: "(0::int) \<le> 0" by simp
  obtain st where run: "build ?e [4, 5, 6] False 0 = Inr st"
    using build_total [of "[4, 5, 6]" ?e False 0] by (auto simp: pins_ok_def)
  note T = no_samples_store_zero [OF h, of "\<lambda>m. (1000 * m, 700)" False ?e "[4, 5, 6]" st 0 2]
  have c: "entry 3 st 0 2 = 0 \<and> entry 3 st 2 0 = 0"
    using T run by (simp add: numeral_3_eq_3)
  have "0 \<le> x" if xin: "x \<in> set (data st)" for x
  proof -
    obtain a b where ab: "a < length [4, 5, 6::int]" "b < length [4, 5, 6::int]"
      and x: "x = entry (length [4, 5, 6::int]) st a b"
      using data_cell [OF run xin] by blast
    show ?thesis
      unfolding x build_Inr(3) [OF run ab]
      by (simp add: latency_def pair_sampler_nonneg)
  qed
  then have n: "-1 \<notin> set (data st)" by fastforce
  have "sample_loop (\<lambda>m. (1000 * m, 700)) False 0 0 (-1) = -1" using T by blast
  moreover have "pair_sampler (\<lambda>m. (1000 * m, 700)) False 0 = 0" using T by blast
  ultimately show ?thesis using h run c n by blast
qed

section \<open>The concurrent layer: the two hand-off protocols\<close>

subsection \<open>The protocol invariants hold in every reachable state\<close>

lemma flag_inv_init: "\<not> use_write a \<Longrightarrow> flag_inv a init"
  by (simp add: flag_inv_def wf_def init_def)

lemma cas_inv_init: "use_write a \<Longrightarrow> cas_inv a init"
  by (simp add: cas_inv_def wf_def init_def)

lemma flag_inv_main_step:
  "\<not> use_write a \<Longrightarrow> flag_inv a s \<Longrightarrow> flag_inv a (main_step a s)"
  by (cases "ipc s"; cases "rpc s")
     (auto simp: flag_inv_def wf_def main_step_def split: if_splits)

lemma flag_inv_thread_step:
  "\<not> use_write a \<Longrightarrow> flag_inv a s \<Longrightarrow> flag_inv a (thread_func_step a s)"
  by (cases "rpc s"; cases "ipc s")
     (auto simp: flag_inv_def wf_def thread_func_step_def split: if_splits)

lemma cas_inv_main_step:
  "use_write a \<Longrightarrow> cas_inv a s \<Longrightarrow> cas_inv a (main_step a s)"
  by (cases "ipc s"; cases "rpc s")
     (auto simp: cas_inv_def wf_def main_step_def split: if_splits)

lemma cas_inv_thread_step:
  "use_write a \<Longrightarrow> cas_inv a s \<Longrightarrow> cas_inv a (thread_func_step a s)"
  by (cases "rpc s"; cases "ipc s")
     (auto simp: cas_inv_def wf_def thread_func_step_def split: if_splits)

lemma flag_inv_step: "\<not> use_write a \<Longrightarrow> flag_inv a s \<Longrightarrow> flag_inv a (step a c s)"
  by (cases c) (simp_all add: step_def flag_inv_main_step flag_inv_thread_step)

lemma cas_inv_step: "use_write a \<Longrightarrow> cas_inv a s \<Longrightarrow> cas_inv a (step a c s)"
  by (cases c) (simp_all add: step_def cas_inv_main_step cas_inv_thread_step)

lemma run_append: "run a (xs @ ys) s = run a ys (run a xs s)"
  by (induction xs arbitrary: s) simp_all

lemma run_snoc: "run a (xs @ [c]) s = step a c (run a xs s)"
  by (simp add: run_append)

lemma flag_inv_run_from: "\<not> use_write a \<Longrightarrow> flag_inv a s \<Longrightarrow> flag_inv a (run a sched s)"
  by (induction sched arbitrary: s) (simp_all add: flag_inv_step)

lemma cas_inv_run_from: "use_write a \<Longrightarrow> cas_inv a s \<Longrightarrow> cas_inv a (run a sched s)"
  by (induction sched arbitrary: s) (simp_all add: cas_inv_step)

lemma flag_inv_run: "\<not> use_write a \<Longrightarrow> flag_inv a (run a sched init)"
  by (simp add: flag_inv_run_from flag_inv_init)

lemma cas_inv_run: "use_write a \<Longrightarrow> cas_inv a (run a sched init)"
  by (simp add: cas_inv_run_from cas_inv_init)

subsection \<open>The log is ordered\<close>

lemma i_link_mono:
  "i_link a tr m pc \<Longrightarrow> e \<noteq> Warmup Initiator \<Longrightarrow> i_link a (tr @ [e]) m pc"
  by (cases pc) auto

lemma r_link_mono:
  "r_link a tr m pc \<Longrightarrow> e \<noteq> Warmup Responder \<Longrightarrow> r_link a (tr @ [e]) m pc"
  by (cases pc) auto

lemma links_init: "links a init"
  by (simp add: links_def init_def warmed_def)

lemma links_main_step:
  "(if use_write a then cas_inv a s else flag_inv a s) \<Longrightarrow> links a s \<Longrightarrow> links a (main_step a s)"
  by (cases "ipc s"; cases "use_write a")
     (auto simp: links_def warmed_def cas_inv_def flag_inv_def wf_def main_step_def r_link_mono
           split: if_splits)

lemma links_thread_step:
  "(if use_write a then cas_inv a s else flag_inv a s) \<Longrightarrow> links a s \<Longrightarrow>
   links a (thread_func_step a s)"
  by (cases "rpc s"; cases "use_write a")
     (auto simp: links_def warmed_def cas_inv_def flag_inv_def wf_def thread_func_step_def i_link_mono
           split: if_splits)

lemma justified_trace_Nil: "justified_trace a []"
  by (simp add: justified_trace_def)

lemma justified_trace_snoc:
  "justified_trace a (tr @ [e]) = (justified_trace a tr \<and> justified a tr e)"
proof
  assume J: "justified_trace a (tr @ [e])"
  have "justified a (take k tr) (tr ! k)" if "k < length tr" for k
  proof -
    have "justified a (take k (tr @ [e])) ((tr @ [e]) ! k)"
      using J that by (simp add: justified_trace_def)
    then show ?thesis using that by (simp add: nth_append)
  qed
  moreover have "justified a tr e"
    using J by (simp add: justified_trace_def) (metis lessI nth_append_length order_refl take_all)
  ultimately show "justified_trace a tr \<and> justified a tr e"
    by (simp add: justified_trace_def)
next
  assume J: "justified_trace a tr \<and> justified a tr e"
  show "justified_trace a (tr @ [e])"
    unfolding justified_trace_def
  proof (intro allI impI)
    fix k assume "k < length (tr @ [e])"
    then consider "k < length tr" | "k = length tr" by fastforce
    then show "justified a (take k (tr @ [e])) ((tr @ [e]) ! k)"
    proof cases
      case 1
      then show ?thesis using J by (simp add: justified_trace_def nth_append)
    next
      case 2
      then show ?thesis using J by simp
    qed
  qed
qed

lemma int_last_step: "n < 100 \<Longrightarrow> \<not> n < 99 \<Longrightarrow> int n = 99"
  by simp

lemma int_first_step: "0 < n \<Longrightarrow> n \<le> Suc 0 \<Longrightarrow> int n = 1"
  by simp

lemma main_step_emits:
  "(if use_write a then cas_inv a s else flag_inv a s) \<Longrightarrow> links a s \<Longrightarrow>
   trace (main_step a s) = trace s \<or>
   (\<exists>e. trace (main_step a s) = trace s @ [e] \<and> justified a (trace s) e)"
  by (cases "ipc s"; cases "use_write a")
     (auto simp: links_def warmed_def cas_inv_def flag_inv_def wf_def main_step_def int_last_step
           split: if_splits)

lemma thread_step_emits:
  "(if use_write a then cas_inv a s else flag_inv a s) \<Longrightarrow> links a s \<Longrightarrow>
   trace (thread_func_step a s) = trace s \<or>
   (\<exists>e. trace (thread_func_step a s) = trace s @ [e] \<and> justified a (trace s) e)"
  by (cases "rpc s"; cases "use_write a"; cases "ipc s")
     (auto simp: links_def warmed_def cas_inv_def flag_inv_def wf_def thread_func_step_def int_first_step
           split: if_splits)

lemma pair_inv_init: "pair_inv a init"
  using flag_inv_init [of a] cas_inv_init [of a] links_init [of a]
  by (simp add: pair_inv_def) (simp add: init_def justified_trace_Nil)

lemma pair_inv_step:
  assumes "pair_inv a s"
  shows "pair_inv a (step a c s)"
proof -
  have P: "if use_write a then cas_inv a s else flag_inv a s"
    and L: "links a s" and J: "justified_trace a (trace s)"
    using assms by (simp_all add: pair_inv_def)
  have P': "if use_write a then cas_inv a (step a c s) else flag_inv a (step a c s)"
    using P by (simp add: cas_inv_step flag_inv_step)
  have L': "links a (step a c s)"
    using links_main_step [OF P L] links_thread_step [OF P L] by (cases c) (simp_all add: step_def)
  have "trace (step a c s) = trace s \<or>
        (\<exists>e. trace (step a c s) = trace s @ [e] \<and> justified a (trace s) e)"
    using main_step_emits [OF P L] thread_step_emits [OF P L] by (cases c) (simp_all add: step_def)
  then have J': "justified_trace a (trace (step a c s))"
    using J by (auto simp: justified_trace_snoc)
  show ?thesis using P' L' J' by (simp add: pair_inv_def)
qed

lemma pair_inv_run_from: "pair_inv a s \<Longrightarrow> pair_inv a (run a sched s)"
  by (induction sched arbitrary: s) (simp_all add: pair_inv_step)

lemma pair_inv_run: "pair_inv a (run a sched init)"
  by (simp add: pair_inv_run_from pair_inv_init)

lemma justified_before:
  assumes "justified_trace a tr"
    and "\<And>pre. justified a pre e2 \<Longrightarrow> e1 \<in> set pre"
  shows "before e1 e2 tr"
  unfolding before_def
proof (intro allI impI)
  fix k assume "k < length tr" "tr ! k = e2"
  then have "justified a (take k tr) e2"
    using assms(1) by (auto simp: justified_trace_def)
  then show "e1 \<in> set (take k tr)" by (rule assms(2))
qed

subsection \<open>Stored values, warm-ups, progress\<close>

lemma stores_append: "stores x (tr @ tr') = stores x tr @ stores x tr'"
  by (induction x tr rule: stores.induct) simp_all

lemma chain_snoc:
  "chain hi (xs @ [v]) =
     (chain hi xs \<and> (xs = [] \<or> (v = last xs + 1 \<and> last xs < hi \<or> last xs = hi \<and> v = -1)))"
  by (induction hi xs rule: chain.induct) auto

lemma counter_inv_init: "counter_inv a init"
  by (simp add: counter_inv_def init_def)

lemma counter_inv_main_step:
  "use_write a \<Longrightarrow> cas_inv a s \<Longrightarrow> counter_inv a s \<Longrightarrow> counter_inv a (main_step a s)"
  by (cases "ipc s")
     (auto simp: counter_inv_def cas_inv_def wf_def main_step_def stores_append chain_snoc
           split: if_splits)

lemma counter_inv_thread_step:
  "use_write a \<Longrightarrow> cas_inv a s \<Longrightarrow> counter_inv a s \<Longrightarrow> counter_inv a (thread_func_step a s)"
  by (cases "rpc s"; cases "ipc s")
     (auto simp: counter_inv_def cas_inv_def wf_def thread_func_step_def stores_append chain_snoc
           split: if_splits)

lemma counter_inv_run_from:
  "use_write a \<Longrightarrow> cas_inv a s \<Longrightarrow> counter_inv a s \<Longrightarrow> counter_inv a (run a sched s)"
proof (induction sched arbitrary: s)
  case Nil
  then show ?case by simp
next
  case (Cons c sched)
  have "counter_inv a (step a c s)"
    using Cons.prems counter_inv_main_step counter_inv_thread_step
    by (cases c) (simp_all add: step_def)
  then show ?case using Cons by (simp add: cas_inv_step)
qed

lemma counter_inv_run: "use_write a \<Longrightarrow> counter_inv a (run a sched init)"
  by (simp add: counter_inv_run_from cas_inv_init counter_inv_init)

lemma warm_inv_init: "warm_inv a init"
  by (simp add: warm_inv_def init_def)

lemma warm_inv_step: "warm_inv a s \<Longrightarrow> warm_inv a (step a c s)"
  by (cases c; cases "ipc s"; cases "rpc s")
     (auto simp: warm_inv_def step_def main_step_def thread_func_step_def split: if_splits)

lemma warm_inv_run_from: "warm_inv a s \<Longrightarrow> warm_inv a (run a sched s)"
  by (induction sched arbitrary: s) (simp_all add: warm_inv_step)

lemma warm_inv_run: "warm_inv a (run a sched init)"
  by (simp add: warm_inv_run_from warm_inv_init)

text \<open>No reachable state is stuck before both threads have returned.\<close>

lemma progress_flag:
  "\<not> use_write a \<Longrightarrow> flag_inv a s \<Longrightarrow> ipc s \<noteq> I_Done \<Longrightarrow>
   ipc (main_step a s) \<noteq> ipc s \<or> rpc (thread_func_step a s) \<noteq> rpc s"
  by (cases "ipc s"; cases "rpc s")
     (auto simp: flag_inv_def wf_def main_step_def thread_func_step_def split: if_splits)

lemma progress_cas:
  "use_write a \<Longrightarrow> cas_inv a s \<Longrightarrow> ipc s \<noteq> I_Done \<Longrightarrow>
   ipc (main_step a s) \<noteq> ipc s \<or> rpc (thread_func_step a s) \<noteq> rpc s"
  by (cases "ipc s"; cases "rpc s")
     (auto simp: cas_inv_def wf_def main_step_def thread_func_step_def split: if_splits)

subsection \<open>The warm-up loop\<close>

lemma warmup_poll_Some:
  assumes "warmup_poll readings start k = Some j"
  shows "k \<le> j \<and> 200000000 \<le> elapsed_ns start (clock_gettime (readings j)) \<and>
         (\<forall>i. k \<le> i \<and> i < j \<longrightarrow> elapsed_ns start (clock_gettime (readings i)) < 200000000)"
proof -
  let ?P = "\<lambda>rd st k j. k \<le> j \<and> 200000000 \<le> elapsed_ns st (clock_gettime (rd j)) \<and>
         (\<forall>i. k \<le> i \<and> i < j \<longrightarrow> elapsed_ns st (clock_gettime (rd i)) < 200000000)"
  have "?P readings start k j"
  proof (rule warmup_poll.raw_induct [where P = ?P, OF _ assms])
    fix poll :: "(nat \<Rightarrow> nat) \<Rightarrow> timespec \<Rightarrow> nat \<Rightarrow> nat option"
    fix rd st k j
    assume IH: "\<And>rd st k j. poll rd st k = Some j \<Longrightarrow> ?P rd st k j"
      and eq: "(if 200000000 \<le> elapsed_ns st (clock_gettime (rd k)) then Some k
               else poll rd st (k + 1)) = Some j"
    show "?P rd st k j"
    proof (cases "200000000 \<le> elapsed_ns st (clock_gettime (rd k))")
      case True
      then have "j = k" using eq by simp
      then show ?thesis using True by simp
    next
      case False
      then have "poll rd st (k + 1) = Some j" using eq by simp
      then have H: "?P rd st (k + 1) j" by (rule IH)
      have "elapsed_ns st (clock_gettime (rd i)) < 200000000" if i: "k \<le> i \<and> i < j" for i
      proof (cases "i = k")
        case True
        then show ?thesis using False by simp
      next
        case neq: False
        then have "k + 1 \<le> i \<and> i < j" using i by simp
        then show ?thesis using H by blast
      qed
      moreover have "k \<le> j" using H by simp
      moreover have "200000000 \<le> elapsed_ns st (clock_gettime (rd j))" using H by blast
      ultimately show ?thesis by blast
    qed
  qed
  then show ?thesis .
qed

lemma warmup_poll_returns:
  "k \<le> j \<Longrightarrow> 200000000 \<le> elapsed_ns start (clock_gettime (readings j)) \<Longrightarrow>
   \<exists>i. warmup_poll readings start k = Some i"
proof (induction "j - k" arbitrary: k)
  case 0
  then have "k = j" by simp
  then show ?case using 0 by (subst warmup_poll.simps) simp
next
  case (Suc d)
  show ?case
  proof (cases "200000000 \<le> elapsed_ns start (clock_gettime (readings k))")
    case True
    then show ?thesis by (subst warmup_poll.simps) simp
  next
    case False
    have "d = j - (k + 1)" "k + 1 \<le> j" using Suc.hyps(2) by simp_all
    then have "\<exists>i. warmup_poll readings start (k + 1) = Some i"
      using Suc.hyps(1) Suc.prems(2) by blast
    then show ?thesis using False by (subst warmup_poll.simps) simp
  qed
qed

lemma warmup_Some:
  assumes "warmup readings = Some p"
  shows "1 \<le> p \<and> 200000000 \<le> int (readings p) - int (readings 0) \<and>
         (\<forall>i. 1 \<le> i \<and> i < p \<longrightarrow> int (readings i) - int (readings 0) < 200000000)"
proof -
  note R = warmup_poll_Some [of readings "clock_gettime (readings 0)" 1 p]
  have P: "warmup_poll readings (clock_gettime (readings 0)) 1 = Some p"
    using assms by (simp add: warmup_def)
  have a: "1 \<le> p" using R [OF P] by simp
  have "200000000 \<le> elapsed_ns (clock_gettime (readings 0)) (clock_gettime (readings p))"
    using R [OF P] by blast
  then have b: "200000000 \<le> int (readings p) - int (readings 0)"
    unfolding elapsed_readings .
  have c: "int (readings i) - int (readings 0) < 200000000" if i: "1 \<le> i \<and> i < p" for i
  proof -
    have "elapsed_ns (clock_gettime (readings 0)) (clock_gettime (readings i)) < 200000000"
      using R [OF P] i by blast
    then have "\<not> 200000000 \<le> elapsed_ns (clock_gettime (readings 0)) (clock_gettime (readings i))"
      by simp
    then show ?thesis unfolding elapsed_readings by simp
  qed
  show ?thesis using a b c by blast
qed

lemma warmup_returns:
  assumes "1 \<le> j" "200000000 \<le> int (readings j) - int (readings 0)"
  shows "\<exists>p. warmup readings = Some p"
proof -
  have "200000000 \<le> elapsed_ns (clock_gettime (readings 0)) (clock_gettime (readings j))"
    unfolding elapsed_readings using assms(2) .
  then show ?thesis
    unfolding warmup_def using assms(1) by (intro warmup_poll_returns)
qed

lemma trace_justified: "justified_trace a (trace (run a sched init))"
  using pair_inv_run [of a sched] by (simp add: pair_inv_def)

lemma even_not_minus_one: "2 * int n \<noteq> -1"
  by presburger

subsection \<open>Both threads reach their end\<close>

lemma main_step_stutter: "ipc (main_step a s) = ipc s \<Longrightarrow> main_step a s = s"
  by (cases "ipc s") (auto simp: main_step_def split: if_splits)

lemma thread_step_stutter: "rpc (thread_func_step a s) = rpc s \<Longrightarrow> thread_func_step a s = s"
  by (cases "rpc s") (auto simp: thread_func_step_def split: if_splits)

lemma main_step_remaining:
  "wf a s \<Longrightarrow> remaining a (main_step a s) \<le> remaining a s \<and>
     (ipc (main_step a s) \<noteq> ipc s \<longrightarrow> remaining a (main_step a s) < remaining a s)"
  by (cases "ipc s") (auto simp: remaining_def wf_def main_step_def split: if_splits)

lemma thread_step_remaining:
  "wf a s \<Longrightarrow> remaining a (thread_func_step a s) \<le> remaining a s \<and>
     (rpc (thread_func_step a s) \<noteq> rpc s \<longrightarrow> remaining a (thread_func_step a s) < remaining a s)"
  by (cases "rpc s") (auto simp: remaining_def wf_def thread_func_step_def split: if_splits)

lemma remaining_init: "remaining a init = 2000 * nat (nsamples a) + 616"
  by (simp add: remaining_def init_def)

lemma alternations_round_robin: "alternations (round_robin k) = k"
  by (induction k) simp_all

lemma proto_wf: "(if use_write a then cas_inv a s else flag_inv a s) \<Longrightarrow> wf a s"
  by (simp add: cas_inv_def flag_inv_def split: if_splits)

lemma proto_step:
  "(if use_write a then cas_inv a s else flag_inv a s) \<Longrightarrow>
   (if use_write a then cas_inv a (step a c s) else flag_inv a (step a c s))"
  by (simp add: cas_inv_step flag_inv_step)

lemma proto_progress:
  "(if use_write a then cas_inv a s else flag_inv a s) \<Longrightarrow> ipc s \<noteq> I_Done \<Longrightarrow>
   ipc (main_step a s) \<noteq> ipc s \<or> rpc (thread_func_step a s) \<noteq> rpc s"
  using progress_cas [of a s] progress_flag [of a s] by (cases "use_write a") simp_all

lemma step_remaining:
  "(if use_write a then cas_inv a s else flag_inv a s) \<Longrightarrow>
   remaining a (step a c s) \<le> remaining a s"
  using main_step_remaining [OF proto_wf, of a s] thread_step_remaining [OF proto_wf, of a s]
  by (cases c) (simp_all add: step_def)

lemma turn_remaining:
  assumes P: "if use_write a then cas_inv a s else flag_inv a s"
    and nd: "ipc s \<noteq> I_Done" and cd: "c \<noteq> d"
  shows "remaining a (step a d (step a c s)) < remaining a s"
proof -
  have W: "wf a s" using P by (rule proto_wf)
  note M = main_step_remaining [OF W]
  note T = thread_step_remaining [OF W]
  have P': "if use_write a then cas_inv a (step a c s) else flag_inv a (step a c s)"
    using P by (rule proto_step)
  have second: "remaining a (step a d (step a c s)) \<le> remaining a (step a c s)"
    using P' by (rule step_remaining)
  show ?thesis
  proof (cases c)
    case Initiator
    then have d: "d = Responder" using cd by (cases d) simp_all
    show ?thesis
    proof (cases "ipc (main_step a s) = ipc s")
      case True
      then have same: "main_step a s = s" by (rule main_step_stutter)
      have "rpc (thread_func_step a s) \<noteq> rpc s"
        using proto_progress [OF P nd] True by simp
      then show ?thesis using T same Initiator d by (simp add: step_def)
    next
      case False
      then have "remaining a (step a c s) < remaining a s"
        using M Initiator by (simp add: step_def)
      then show ?thesis using second by simp
    qed
  next
    case Responder
    then have d: "d = Initiator" using cd by (cases d) simp_all
    show ?thesis
    proof (cases "rpc (thread_func_step a s) = rpc s")
      case True
      then have same: "thread_func_step a s = s" by (rule thread_step_stutter)
      have "ipc (main_step a s) \<noteq> ipc s"
        using proto_progress [OF P nd] True by simp
      then show ?thesis using M same Responder d by (simp add: step_def)
    next
      case False
      then have "remaining a (step a c s) < remaining a s"
        using T Responder by (simp add: step_def)
      then show ?thesis using second by simp
    qed
  qed
qed

lemma done_step: "ipc s = I_Done \<Longrightarrow> ipc (step a c s) = I_Done"
  by (cases c; cases "rpc s")
     (auto simp: step_def main_step_def thread_func_step_def split: if_splits)

lemma done_stays: "ipc s = I_Done \<Longrightarrow> ipc (run a sched s) = I_Done"
  by (induction sched arbitrary: s) (simp_all add: done_step)

lemma rank_zero: "i_rank pc = 0 \<Longrightarrow> pc = I_Done"
  by (cases pc) simp_all

lemma run_completes:
  assumes "if use_write a then cas_inv a s else flag_inv a s"
    and "remaining a s \<le> alternations sched"
  shows "ipc (run a sched s) = I_Done"
  using assms
proof (induction sched arbitrary: s rule: alternations.induct)
  case (1 c d sched)
  show ?case
  proof (cases "ipc s = I_Done")
    case True
    then show ?thesis by (rule done_stays)
  next
    case nd: False
    show ?thesis
    proof (cases "c = d")
      case True
      have "remaining a (step a c s) \<le> alternations (d # sched)"
        using step_remaining [OF "1.prems"(1), of c] "1.prems"(2) True by simp
      then have "ipc (run a (d # sched) (step a c s)) = I_Done"
        using "1.IH"(2) True proto_step [OF "1.prems"(1)] by blast
      then show ?thesis by simp
    next
      case False
      have "remaining a (step a d (step a c s)) < remaining a s"
        using "1.prems"(1) nd False by (rule turn_remaining)
      then have "remaining a (step a d (step a c s)) \<le> alternations sched"
        using "1.prems"(2) False by simp
      then have "ipc (run a sched (step a d (step a c s))) = I_Done"
        using "1.IH"(1) False proto_step [OF proto_step [OF "1.prems"(1)]] by blast
      then show ?thesis by simp
    qed
  qed
next
  case "2_1"
  then have "i_rank (ipc s) = 0" by (simp add: remaining_def)
  then show ?case by (simp add: rank_zero)
next
  case "2_2"
  then have "i_rank (ipc s) = 0" by (simp add: remaining_def)
  then have "ipc s = I_Done" by (rule rank_zero)
  then show ?case by (rule done_stays)
qed

lemma run_remaining:
  "(if use_write a then cas_inv a s else flag_inv a s) \<Longrightarrow>
   remaining a (run a sched s) \<le> remaining a s"
proof (induction sched arbitrary: s)
  case Nil
  then show ?case by simp
next
  case (Cons c sched)
  have "remaining a (run a sched (step a c s)) \<le> remaining a (step a c s)"
    using Cons.IH proto_step [OF Cons.prems] by blast
  then show ?case using step_remaining [OF Cons.prems, of c] by simp
qed

lemma proto_init: "if use_write a then cas_inv a init else flag_inv a init"
  by (simp add: cas_inv_init flag_inv_init)

lemma proto_run: "if use_write a then cas_inv a (run a sched init) else flag_inv a (run a sched init)"
  by (simp add: cas_inv_run flag_inv_run)

lemma pair_completes:
  assumes "2000 * nat (nsamples a) + 616 \<le> alternations sched"
  shows "ipc (run a sched init) = I_Done"
  using proto_init assms by (intro run_completes) (simp_all add: remaining_init)

lemma pair_completes_from:
  assumes "2000 * nat (nsamples a) + 616 \<le> alternations rest"
  shows "ipc (run a (sched @ rest) init) = I_Done"
proof -
  have "remaining a (run a sched init) \<le> remaining a init"
    using proto_init by (rule run_remaining)
  then have "remaining a (run a sched init) \<le> alternations rest"
    using assms by (simp add: remaining_init)
  then have "ipc (run a rest (run a sched init)) = I_Done"
    using proto_run by (intro run_completes)
  then show ?thesis by (simp add: run_append)
qed

lemma completed_init: "completed init"
  by (simp add: completed_def init_def)

lemma completed_main_step: "completed s \<Longrightarrow> completed (main_step a s)"
  by (cases "ipc s") (auto simp: completed_def main_step_def split: if_splits)

lemma completed_thread_step: "completed s \<Longrightarrow> completed (thread_func_step a s)"
  by (cases "rpc s") (auto simp: completed_def thread_func_step_def split: if_splits)

lemma completed_run_from: "completed s \<Longrightarrow> completed (run a sched s)"
proof (induction sched arbitrary: s)
  case Nil
  then show ?case by simp
next
  case (Cons c sched)
  have "completed (step a c s)"
    using Cons.prems completed_main_step completed_thread_step
    by (cases c) (simp_all add: step_def)
  then show ?case using Cons.IH by simp
qed

lemma completed_run: "completed (run a sched init)"
  by (simp add: completed_run_from completed_init)

lemma justified_occurs:
  assumes "justified_trace a tr" and "e \<in> set tr"
  obtains pre where "justified a pre e" and "set pre \<subseteq> set tr"
proof -
  obtain k where k: "k < length tr" "tr ! k = e"
    using assms(2) by (auto simp: in_set_conv_nth)
  have "justified a (take k tr) e"
    using assms(1) k by (auto simp: justified_trace_def)
  moreover have "set (take k tr) \<subseteq> set tr" by (rule set_take_subset)
  ultimately show ?thesis by (rule that)
qed

lemma occurs_Passed:
  assumes "justified_trace a tr" and "Passed c x m v \<in> set tr"
  shows "Wrote (peer c) x m v \<in> set tr"
proof -
  obtain pre where "justified a pre (Passed c x m v)" "set pre \<subseteq> set tr"
    using assms by (rule justified_occurs)
  then show ?thesis by auto
qed

lemma occurs_Ts2:
  assumes "justified_trace a tr" and "use_write a" and "Ts2 m \<in> set tr"
  shows "Ts1 m \<in> set tr \<and> Passed Initiator Seq1 m 199 \<in> set tr"
proof -
  obtain pre where "justified a pre (Ts2 m)" "set pre \<subseteq> set tr"
    using assms(1,3) by (rule justified_occurs)
  then show ?thesis using assms(2) by auto
qed

lemma occurs_Ts1:
  assumes "justified_trace a tr" and "use_write a" and "Ts1 m \<in> set tr"
  shows "Passed Initiator Seq2 m 1 \<in> set tr"
proof -
  obtain pre where "justified a pre (Ts1 m)" "set pre \<subseteq> set tr"
    using assms(1,3) by (rule justified_occurs)
  then show ?thesis using assms(2) by auto
qed

lemma occurs_barrier:
  assumes "justified_trace a tr" and "use_write a" and "Wrote Responder Seq2 m v \<in> set tr"
  shows "Passed Responder Seq2 m 0 \<in> set tr"
proof -
  obtain pre where "justified a pre (Wrote Responder Seq2 m v)" "set pre \<subseteq> set tr"
    using assms(1,3) by (rule justified_occurs)
  then show ?thesis using assms(2) by auto
qed

lemma occurs_responder_exchange:
  assumes "justified_trace a tr" and "Wrote Responder Seq1 m v \<in> set tr"
  shows "Wrote Initiator Seq1 m (v - 1) \<in> set tr"
proof -
  obtain pre where "justified a pre (Wrote Responder Seq1 m v)" "set pre \<subseteq> set tr"
    using assms by (rule justified_occurs)
  then show ?thesis by auto
qed

lemma occurs_initiator_exchange:
  assumes "justified_trace a tr" and "use_write a" and "Wrote Initiator Seq1 m v \<in> set tr"
    and "0 < v"
  shows "Wrote Responder Seq1 m (v - 1) \<in> set tr"
proof -
  obtain pre where "justified a pre (Wrote Initiator Seq1 m v)" "set pre \<subseteq> set tr"
    using assms(1,3) by (rule justified_occurs)
  then show ?thesis using assms(2,4) by auto
qed

lemma occurs_exchanges_down:
  assumes J: "justified_trace a tr" and w: "use_write a"
    and top: "Wrote Responder Seq1 m 199 \<in> set tr"
  shows "k < 100 \<Longrightarrow> Wrote Responder Seq1 m (199 - 2 * int k) \<in> set tr"
proof (induction k)
  case 0
  then show ?case using top by simp
next
  case (Suc k)
  then have r: "Wrote Responder Seq1 m (199 - 2 * int k) \<in> set tr" by simp
  have "Wrote Initiator Seq1 m (199 - 2 * int k - 1) \<in> set tr"
    using J r by (rule occurs_responder_exchange)
  moreover have "0 < 199 - 2 * int k - 1" using Suc.prems by simp
  ultimately have "Wrote Responder Seq1 m (199 - 2 * int k - 1 - 1) \<in> set tr"
    using J w by (intro occurs_initiator_exchange)
  moreover have "199 - 2 * int k - 1 - 1 = 199 - 2 * int (Suc k)" by simp
  ultimately show ?case by simp
qed

lemma occurs_exchanges:
  assumes J: "justified_trace a tr" and w: "use_write a"
    and top: "Wrote Responder Seq1 m 199 \<in> set tr" and n: "n < 100"
  shows "Wrote Initiator Seq1 m (2 * int n) \<in> set tr \<and>
         Wrote Responder Seq1 m (2 * int n + 1) \<in> set tr"
proof -
  have "99 - n < 100" by simp
  then have d: "Wrote Responder Seq1 m (199 - 2 * int (99 - n)) \<in> set tr"
    by (rule occurs_exchanges_down [OF J w top])
  have eq: "199 - 2 * int (99 - n) = 2 * int n + 1" using n by simp
  have r: "Wrote Responder Seq1 m (2 * int n + 1) \<in> set tr" using d unfolding eq .
  have "Wrote Initiator Seq1 m (2 * int n + 1 - 1) \<in> set tr"
    using J r by (rule occurs_responder_exchange)
  then show ?thesis using r by simp
qed

lemma sample_events:
  assumes J: "justified_trace a tr" and w: "use_write a" and e: "Ts2 m \<in> set tr"
    and n: "n < 100"
  shows "Wrote Initiator Seq2 m 0 \<in> set tr \<and> Passed Responder Seq2 m 0 \<in> set tr \<and>
         Wrote Responder Seq2 m 1 \<in> set tr \<and> Passed Initiator Seq2 m 1 \<in> set tr \<and>
         Ts1 m \<in> set tr \<and>
         Wrote Initiator Seq1 m (2 * int n) \<in> set tr \<and>
         Wrote Responder Seq1 m (2 * int n + 1) \<in> set tr \<and>
         Passed Initiator Seq1 m 199 \<in> set tr"
proof -
  have a: "Ts1 m \<in> set tr" "Passed Initiator Seq1 m 199 \<in> set tr"
    using occurs_Ts2 [OF J w e] by simp_all
  have b: "Passed Initiator Seq2 m 1 \<in> set tr" using J w a(1) by (rule occurs_Ts1)
  have c: "Wrote Responder Seq2 m 1 \<in> set tr" using occurs_Passed [OF J b] by simp
  have d: "Passed Responder Seq2 m 0 \<in> set tr" using J w c by (rule occurs_barrier)
  have f: "Wrote Initiator Seq2 m 0 \<in> set tr" using occurs_Passed [OF J d] by simp
  have g: "Wrote Responder Seq1 m 199 \<in> set tr" using occurs_Passed [OF J a(2)] by simp
  show ?thesis using a b c d f occurs_exchanges [OF J w g n] by simp
qed

subsection \<open>The sequence of the values stored into the counter\<close>

lemma chain_next:
  "chain hi xs \<Longrightarrow> Suc k < length xs \<Longrightarrow>
   (xs ! Suc k = xs ! k + 1 \<and> xs ! k < hi) \<or> (xs ! k = hi \<and> xs ! Suc k = -1)"
proof (induction hi xs arbitrary: k rule: chain.induct)
  case (1 hi u v xs)
  show ?case
  proof (cases k)
    case 0
    then show ?thesis using "1.prems"(1) by auto
  next
    case (Suc j)
    have "chain hi (v # xs)" "Suc j < length (v # xs)"
      using "1.prems" Suc by simp_all
    then have "((v # xs) ! Suc j = (v # xs) ! j + 1 \<and> (v # xs) ! j < hi) \<or>
               ((v # xs) ! j = hi \<and> (v # xs) ! Suc j = -1)"
      by (rule "1.IH")
    then show ?thesis using Suc by simp
  qed
qed simp_all

lemma chain_nth:
  assumes "chain 199 xs" and "xs \<noteq> []" and "hd xs = -1"
  shows "k < length xs \<Longrightarrow> xs ! k = int (k mod 201) - 1"
proof (induction k)
  case 0
  then show ?case using assms(2,3) by (simp add: hd_conv_nth)
next
  case (Suc k)
  then have IH: "xs ! k = int (k mod 201) - 1" by simp
  have m: "k mod 201 < 201" by simp
  from chain_next [OF assms(1) Suc.prems]
  show ?case
  proof
    assume a: "xs ! Suc k = xs ! k + 1 \<and> xs ! k < 199"
    then have "k mod 201 < 200" using IH by linarith
    then have "Suc k mod 201 = Suc (k mod 201)" by (simp add: mod_Suc)
    then show ?thesis using a IH by simp
  next
    assume a: "xs ! k = 199 \<and> xs ! Suc k = -1"
    then have "k mod 201 = 200" using IH by linarith
    then have "Suc k mod 201 = 0" by (simp add: mod_Suc)
    then show ?thesis using a by simp
  qed
qed

lemma stores_len_init: "stores_len init"
  by (simp add: stores_len_def init_def)

lemma stores_len_main_step:
  "use_write a \<Longrightarrow> cas_inv a s \<Longrightarrow> stores_len s \<Longrightarrow> stores_len (main_step a s)"
  by (cases "ipc s")
     (auto simp: stores_len_def cas_inv_def wf_def main_step_def stores_append nat_add_distrib
           split: if_splits)

lemma stores_len_thread_step:
  "use_write a \<Longrightarrow> cas_inv a s \<Longrightarrow> stores_len s \<Longrightarrow> stores_len (thread_func_step a s)"
  by (cases "rpc s"; cases "ipc s")
     (auto simp: stores_len_def cas_inv_def wf_def thread_func_step_def stores_append nat_add_distrib
           split: if_splits)

lemma stores_len_run_from:
  "use_write a \<Longrightarrow> cas_inv a s \<Longrightarrow> stores_len s \<Longrightarrow> stores_len (run a sched s)"
proof (induction sched arbitrary: s)
  case Nil
  then show ?case by simp
next
  case (Cons c sched)
  have "stores_len (step a c s)"
    using Cons.prems stores_len_main_step stores_len_thread_step
    by (cases c) (simp_all add: step_def)
  then show ?case using Cons by (simp add: cas_inv_step)
qed

lemma stores_len_run: "use_write a \<Longrightarrow> stores_len (run a sched init)"
  by (simp add: stores_len_run_from cas_inv_init stores_len_init)

subsection \<open>Properties of the protocols\<close>

text \<open>
  C6. Under the compare-and-exchange protocol, in every state \<open>s\<close> the two threads can reach
  and for every sample \<open>m\<close>: the barrier on \<open>seq2\<close> runs in the order store 0 by the main
  thread, wait of the spawned thread, store 1 by the spawned thread, wait of the main
  thread, and is complete, with -1 back in \<open>seq2\<close>, when the first clock reading is taken;
  the main thread's exchange to \<open>2n\<close> follows that reading and, for \<open>n > 0\<close>, the spawned
  thread's exchange to \<open>2n - 1\<close>; the spawned thread's exchange to \<open>2n + 1\<close> follows the main
  thread's exchange to \<open>2n\<close>; the counters \<open>n\<close> stay below 100 and an exchange is attempted
  from \<open>2n - 1\<close> by the main thread and from \<open>2n\<close> by the spawned thread; the main thread's
  last wait returns after the store of 199 and before the second clock reading; and the
  values stored into \<open>seq1\<close> start at -1, go up by one from store to store, and return to
  -1 only from 199, the cell holding the last one.

  The steps are taken, not only ordered. Before the main thread is done, one of the two
  threads can move. From \<open>s\<close>, every schedule that lets the threads take turns
  \<open>2000 * nsamples + 616\<close> times brings the main thread to its end, past the join, with
  every sample run. Every sample \<open>m\<close> the main thread has completed has in the log its
  barrier, its first clock reading, for each \<open>n < 100\<close> the main thread's exchange to \<open>2n\<close>
  and the spawned thread's exchange to \<open>2n + 1\<close>, the return of the last wait on 199 and
  its second clock reading. The store number \<open>k\<close> into \<open>seq1\<close>, counted from 0, stores
  \<open>k mod 201 - 1\<close>: the values are -1, 0, 1, \<dots>, 199 in each sample, 201 stores in each
  completed sample. When the main thread is done, it has completed the samples
  \<open>0, \<dots>, nsamples - 1\<close>, \<open>seq1\<close> has been stored into \<open>201 * nsamples\<close> times and, if there was
  a sample, it holds 199.
\<close>

theorem cas_sample_steps:
  fixes a sched
  assumes "use_write a"
  defines "s \<equiv> run a sched init"
  shows "before (Wrote Initiator Seq2 m 0) (Passed Responder Seq2 m 0) (trace s)
       \<and> before (Passed Responder Seq2 m 0) (Wrote Responder Seq2 m 1) (trace s)
       \<and> before (Wrote Responder Seq2 m 1) (Passed Initiator Seq2 m 1) (trace s)
       \<and> before (Passed Initiator Seq2 m 1) (Ts1 m) (trace s)
       \<and> (ipc s = I_Ts1 \<longrightarrow> seq2 s = -1 \<and> seq1 s = -1 \<and> rpc s = R_Cas 0 \<and> rm s = im s)
       \<and> before (Ts1 m) (Wrote Initiator Seq1 m (2 * int n)) (trace s)
       \<and> before (Wrote Initiator Seq1 m (2 * int n)) (Wrote Responder Seq1 m (2 * int n + 1)) (trace s)
       \<and> before (Wrote Responder Seq1 m (2 * int n + 1)) (Wrote Initiator Seq1 m (2 * int n + 2))
            (trace s)
       \<and> (ipc s = I_Cas n \<longrightarrow> n < 100 \<and> (seq1 s = 2 * int n - 1 \<or> seq1 s = 2 * int n - 2))
       \<and> (rpc s = R_Cas n \<longrightarrow> n < 100 \<and> (seq1 s = 2 * int n \<or> seq1 s = 2 * int n - 1))
       \<and> before (Wrote Responder Seq1 m 199) (Passed Initiator Seq1 m 199) (trace s)
       \<and> before (Passed Initiator Seq1 m 199) (Ts2 m) (trace s)
       \<and> (ipc s = I_Ts2 \<longrightarrow> seq1 s = 199)
       \<and> chain 199 (stores Seq1 (trace s))
       \<and> (stores Seq1 (trace s) \<noteq> [] \<longrightarrow>
            hd (stores Seq1 (trace s)) = -1 \<and> last (stores Seq1 (trace s)) = seq1 s)
       \<and> -1 \<le> seq1 s \<and> seq1 s \<le> 199
       \<and> (ipc s \<noteq> I_Done \<longrightarrow>
            ipc (main_step a s) \<noteq> ipc s \<or> rpc (thread_func_step a s) \<noteq> rpc s)
       \<and> (2000 * nat (nsamples a) + 616 \<le> alternations rest \<longrightarrow>
            ipc (run a rest s) = I_Done \<and> rpc (run a rest s) = R_Done)
       \<and> (0 \<le> m \<and> m < im s \<and> n < 100 \<longrightarrow>
            Wrote Initiator Seq2 m 0 \<in> set (trace s) \<and>
            Passed Responder Seq2 m 0 \<in> set (trace s) \<and>
            Wrote Responder Seq2 m 1 \<in> set (trace s) \<and>
            Passed Initiator Seq2 m 1 \<in> set (trace s) \<and>
            Ts1 m \<in> set (trace s) \<and>
            Wrote Initiator Seq1 m (2 * int n) \<in> set (trace s) \<and>
            Wrote Responder Seq1 m (2 * int n + 1) \<in> set (trace s) \<and>
            Passed Initiator Seq1 m 199 \<in> set (trace s) \<and>
            Ts2 m \<in> set (trace s))
       \<and> (\<forall>k < length (stores Seq1 (trace s)). stores Seq1 (trace s) ! k = int (k mod 201) - 1)
       \<and> length (stores Seq1 (trace s)) =
            201 * nat (im s) + (if pre_reset (ipc s) then 0 else nat (seq1 s + 2))
       \<and> (ipc s = I_Done \<longrightarrow>
            im s = max 0 (nsamples a) \<and> rpc s = R_Done \<and> (0 < nsamples a \<longrightarrow> seq1 s = 199) \<and>
            length (stores Seq1 (trace s)) = 201 * nat (nsamples a))"
proof -
  have J: "justified_trace a (trace s)" unfolding s_def by (rule trace_justified)
  have I: "cas_inv a s" unfolding s_def using assms(1) by (rule cas_inv_run)
  have C: "counter_inv a s" unfolding s_def using assms(1) by (rule counter_inv_run)
  have b1: "before (Wrote Initiator Seq2 m 0) (Passed Responder Seq2 m 0) (trace s)"
    using J by (rule justified_before) simp
  have b2: "before (Passed Responder Seq2 m 0) (Wrote Responder Seq2 m 1) (trace s)"
    using J by (rule justified_before) (simp add: assms(1))
  have b3: "before (Wrote Responder Seq2 m 1) (Passed Initiator Seq2 m 1) (trace s)"
    using J by (rule justified_before) simp
  have b4: "before (Passed Initiator Seq2 m 1) (Ts1 m) (trace s)"
    using J by (rule justified_before) (simp add: assms(1))
  have b5: "before (Ts1 m) (Wrote Initiator Seq1 m (2 * int n)) (trace s)"
    using J by (rule justified_before) (simp add: even_not_minus_one)
  have b6: "before (Wrote Initiator Seq1 m (2 * int n)) (Wrote Responder Seq1 m (2 * int n + 1))
              (trace s)"
    using J by (rule justified_before) simp
  have b7: "before (Wrote Responder Seq1 m (2 * int n + 1)) (Wrote Initiator Seq1 m (2 * int n + 2))
              (trace s)"
    using J by (rule justified_before) (simp add: assms(1) add.commute)
  have b8: "before (Wrote Responder Seq1 m 199) (Passed Initiator Seq1 m 199) (trace s)"
    using J by (rule justified_before) simp
  have b9: "before (Passed Initiator Seq1 m 199) (Ts2 m) (trace s)"
    using J by (rule justified_before) (simp add: assms(1))
  have s1: "ipc s = I_Ts1 \<longrightarrow> seq2 s = -1 \<and> seq1 s = -1 \<and> rpc s = R_Cas 0 \<and> rm s = im s"
    using I by (auto simp: cas_inv_def)
  have s2: "ipc s = I_Cas n \<longrightarrow> n < 100 \<and> (seq1 s = 2 * int n - 1 \<or> seq1 s = 2 * int n - 2)"
    using I by (auto simp: cas_inv_def wf_def)
  have s3: "rpc s = R_Cas n \<longrightarrow> n < 100 \<and> (seq1 s = 2 * int n \<or> seq1 s = 2 * int n - 1)"
    using I by (cases "ipc s") (auto simp: cas_inv_def wf_def split: if_splits)
  have s4: "ipc s = I_Ts2 \<longrightarrow> seq1 s = 199"
    using I by (auto simp: cas_inv_def)
  have s5: "-1 \<le> seq1 s \<and> seq1 s \<le> 199"
    using I by (cases "ipc s") (auto simp: cas_inv_def wf_def split: if_splits)
  have c1: "chain 199 (stores Seq1 (trace s))"
    using C by (simp add: counter_inv_def)
  have c2: "stores Seq1 (trace s) \<noteq> [] \<longrightarrow>
            hd (stores Seq1 (trace s)) = -1 \<and> last (stores Seq1 (trace s)) = seq1 s"
    using C by (simp add: counter_inv_def)
  have safety: "before (Wrote Initiator Seq2 m 0) (Passed Responder Seq2 m 0) (trace s)
       \<and> before (Passed Responder Seq2 m 0) (Wrote Responder Seq2 m 1) (trace s)
       \<and> before (Wrote Responder Seq2 m 1) (Passed Initiator Seq2 m 1) (trace s)
       \<and> before (Passed Initiator Seq2 m 1) (Ts1 m) (trace s)
       \<and> (ipc s = I_Ts1 \<longrightarrow> seq2 s = -1 \<and> seq1 s = -1 \<and> rpc s = R_Cas 0 \<and> rm s = im s)
       \<and> before (Ts1 m) (Wrote Initiator Seq1 m (2 * int n)) (trace s)
       \<and> before (Wrote Initiator Seq1 m (2 * int n)) (Wrote Responder Seq1 m (2 * int n + 1)) (trace s)
       \<and> before (Wrote Responder Seq1 m (2 * int n + 1)) (Wrote Initiator Seq1 m (2 * int n + 2))
            (trace s)
       \<and> (ipc s = I_Cas n \<longrightarrow> n < 100 \<and> (seq1 s = 2 * int n - 1 \<or> seq1 s = 2 * int n - 2))
       \<and> (rpc s = R_Cas n \<longrightarrow> n < 100 \<and> (seq1 s = 2 * int n \<or> seq1 s = 2 * int n - 1))
       \<and> before (Wrote Responder Seq1 m 199) (Passed Initiator Seq1 m 199) (trace s)
       \<and> before (Passed Initiator Seq1 m 199) (Ts2 m) (trace s)
       \<and> (ipc s = I_Ts2 \<longrightarrow> seq1 s = 199)
       \<and> chain 199 (stores Seq1 (trace s))
       \<and> (stores Seq1 (trace s) \<noteq> [] \<longrightarrow>
            hd (stores Seq1 (trace s)) = -1 \<and> last (stores Seq1 (trace s)) = seq1 s)
       \<and> -1 \<le> seq1 s \<and> seq1 s \<le> 199"
    using b1 b2 b3 b4 s1 b5 b6 b7 s2 s3 b8 b9 s4 c1 c2 s5 by blast
  have p1: "ipc s \<noteq> I_Done \<longrightarrow>
            ipc (main_step a s) \<noteq> ipc s \<or> rpc (thread_func_step a s) \<noteq> rpc s"
    using progress_cas [OF assms(1) I] by blast
  have p2: "ipc (run a rest s) = I_Done \<and> rpc (run a rest s) = R_Done"
    if "2000 * nat (nsamples a) + 616 \<le> alternations rest"
  proof -
    have d: "ipc (run a (sched @ rest) init) = I_Done" using that by (rule pair_completes_from)
    have "wf a (run a (sched @ rest) init)"
      using cas_inv_run [OF assms(1)] by (simp add: cas_inv_def)
    then have "rpc (run a (sched @ rest) init) = R_Done" using d by (simp add: wf_def)
    then show ?thesis using d by (simp add: s_def run_append)
  qed
  have p3: "Wrote Initiator Seq2 m 0 \<in> set (trace s) \<and>
            Passed Responder Seq2 m 0 \<in> set (trace s) \<and>
            Wrote Responder Seq2 m 1 \<in> set (trace s) \<and>
            Passed Initiator Seq2 m 1 \<in> set (trace s) \<and>
            Ts1 m \<in> set (trace s) \<and>
            Wrote Initiator Seq1 m (2 * int n) \<in> set (trace s) \<and>
            Wrote Responder Seq1 m (2 * int n + 1) \<in> set (trace s) \<and>
            Passed Initiator Seq1 m 199 \<in> set (trace s) \<and>
            Ts2 m \<in> set (trace s)"
    if "0 \<le> m \<and> m < im s \<and> n < 100"
  proof -
    have "completed s" unfolding s_def by (rule completed_run)
    then have e: "Ts2 m \<in> set (trace s)" using that by (simp add: completed_def)
    have n: "n < 100" using that by simp
    show ?thesis using sample_events [OF J assms(1) e n] e by simp
  qed
  have p4: "stores Seq1 (trace s) ! k = int (k mod 201) - 1"
    if "k < length (stores Seq1 (trace s))" for k
  proof -
    have ne: "stores Seq1 (trace s) \<noteq> []" using that by auto
    then have "hd (stores Seq1 (trace s)) = -1" using c2 by simp
    then show ?thesis using chain_nth [OF c1 ne] that by simp
  qed
  have L: "stores_len s" unfolding s_def using assms(1) by (rule stores_len_run)
  have p5: "length (stores Seq1 (trace s)) =
            201 * nat (im s) + (if pre_reset (ipc s) then 0 else nat (seq1 s + 2))"
    using L by (simp add: stores_len_def)
  have p6: "im s = max 0 (nsamples a) \<and> rpc s = R_Done \<and> (0 < nsamples a \<longrightarrow> seq1 s = 199) \<and>
            length (stores Seq1 (trace s)) = 201 * nat (nsamples a)"
    if d: "ipc s = I_Done"
  proof -
    have i: "im s = max 0 (nsamples a)" using I d by (auto simp: cas_inv_def wf_def)
    have r: "rpc s = R_Done" using I d by (simp add: cas_inv_def wf_def)
    have v: "0 < nsamples a \<longrightarrow> seq1 s = 199" using I d i by (auto simp: cas_inv_def)
    have "nat (im s) = nat (nsamples a)" unfolding i by simp
    then have l: "length (stores Seq1 (trace s)) = 201 * nat (nsamples a)"
      using p5 d by simp
    show ?thesis using i r v l by simp
  qed
  show ?thesis using safety p1 p2 p3 p4 p5 p6 by blast
qed

theorem cas_sample_steps_witness:
  "use_write \<lparr>nsamples = 1, use_write = True, preheat = False\<rparr>
   \<and> stores Seq1 (trace (run \<lparr>nsamples = 1, use_write = True, preheat = False\<rparr>
        [Initiator, Initiator, Initiator, Initiator, Initiator, Initiator,
         Responder, Responder, Responder, Responder, Responder,
         Initiator, Initiator, Initiator, Initiator, Responder, Initiator] init)) = [-1, 0, 1, 2]
   \<and> chain 199 [-1, 0, 1, 2]
   \<and> seq1 (run \<lparr>nsamples = 1, use_write = True, preheat = False\<rparr>
        [Initiator, Initiator, Initiator, Initiator, Initiator, Initiator,
         Responder, Responder, Responder, Responder, Responder,
         Initiator, Initiator, Initiator, Initiator, Responder, Initiator] init) = 2
   \<and> before (Passed Initiator Seq2 0 1) (Ts1 0)
        (trace (run \<lparr>nsamples = 1, use_write = True, preheat = False\<rparr>
        [Initiator, Initiator, Initiator, Initiator, Initiator, Initiator,
         Responder, Responder, Responder, Responder, Responder,
         Initiator, Initiator, Initiator, Initiator, Responder, Initiator] init))
   \<and> Ts1 0 \<in> set (trace (run \<lparr>nsamples = 1, use_write = True, preheat = False\<rparr>
        [Initiator, Initiator, Initiator, Initiator, Initiator, Initiator,
         Responder, Responder, Responder, Responder, Responder,
         Initiator, Initiator, Initiator, Initiator, Responder, Initiator] init))
   \<and> 2000 * nat (nsamples \<lparr>nsamples = 1, use_write = True, preheat = False\<rparr>) + 616
       \<le> alternations (round_robin 2616)
   \<and> ipc (run \<lparr>nsamples = 1, use_write = True, preheat = False\<rparr> (round_robin 2616) init) = I_Done
   \<and> rpc (run \<lparr>nsamples = 1, use_write = True, preheat = False\<rparr> (round_robin 2616) init) = R_Done
   \<and> (0::int) < im (run \<lparr>nsamples = 1, use_write = True, preheat = False\<rparr> (round_robin 2616) init)
   \<and> Ts1 0 \<in> set (trace (run \<lparr>nsamples = 1, use_write = True, preheat = False\<rparr>
        (round_robin 2616) init))
   \<and> Wrote Initiator Seq1 0 114 \<in> set (trace (run \<lparr>nsamples = 1, use_write = True, preheat = False\<rparr>
        (round_robin 2616) init))
   \<and> Wrote Responder Seq1 0 115 \<in> set (trace (run \<lparr>nsamples = 1, use_write = True, preheat = False\<rparr>
        (round_robin 2616) init))
   \<and> Wrote Responder Seq1 0 199 \<in> set (trace (run \<lparr>nsamples = 1, use_write = True, preheat = False\<rparr>
        (round_robin 2616) init))
   \<and> Passed Initiator Seq1 0 199 \<in> set (trace (run \<lparr>nsamples = 1, use_write = True, preheat = False\<rparr>
        (round_robin 2616) init))
   \<and> Ts2 0 \<in> set (trace (run \<lparr>nsamples = 1, use_write = True, preheat = False\<rparr>
        (round_robin 2616) init))
   \<and> seq1 (run \<lparr>nsamples = 1, use_write = True, preheat = False\<rparr> (round_robin 2616) init) = 199
   \<and> length (stores Seq1 (trace (run \<lparr>nsamples = 1, use_write = True, preheat = False\<rparr>
        (round_robin 2616) init))) = 201
   \<and> stores Seq1 (trace (run \<lparr>nsamples = 1, use_write = True, preheat = False\<rparr>
        (round_robin 2616) init)) ! 200 = 199"
proof -
  let ?a = "\<lparr>nsamples = 1, use_write = True, preheat = False\<rparr>"
  let ?sched = "[Initiator, Initiator, Initiator, Initiator, Initiator, Initiator,
         Responder, Responder, Responder, Responder, Responder,
         Initiator, Initiator, Initiator, Initiator, Responder, Initiator]"
  let ?s = "run ?a ?sched init"
  let ?f = "run ?a (round_robin 2616) init"
  have h: "use_write ?a" by simp
  have tr: "trace ?s =
      [Wrote Initiator Seq1 0 (-1), Wrote Initiator Seq2 0 (-1), Wrote Initiator Seq2 0 0,
       Passed Responder Seq2 0 0, Wrote Responder Seq2 0 1, Passed Initiator Seq2 0 1,
       Wrote Initiator Seq2 0 (-1), Ts1 0, Wrote Initiator Seq1 0 0, Wrote Responder Seq1 0 1,
       Wrote Initiator Seq1 0 2]"
    by (simp add: init_def step_def main_step_def thread_func_step_def)
  have st: "stores Seq1 (trace ?s) = [-1, 0, 1, 2]" unfolding tr by simp
  note T = cas_sample_steps [OF h, of 0 sched 1 for sched]
  have "chain 199 (stores Seq1 (trace ?s))" using T [of ?sched] by blast
  then have c: "chain 199 [-1, 0, 1, 2]" unfolding st .
  have "last (stores Seq1 (trace ?s)) = seq1 ?s" using T [of ?sched] st by simp
  then have v: "seq1 ?s = 2" unfolding st by simp
  have b: "before (Passed Initiator Seq2 0 1) (Ts1 0) (trace ?s)" using T [of ?sched] by blast
  have t: "Ts1 0 \<in> set (trace ?s)" unfolding tr by simp
  have k: "2000 * nat (nsamples ?a) + 616 \<le> alternations (round_robin 2616)"
    by (simp add: alternations_round_robin)
  have "ipc (run ?a (round_robin 2616) (run ?a [] init)) = I_Done
      \<and> rpc (run ?a (round_robin 2616) (run ?a [] init)) = R_Done"
    using cas_sample_steps [OF h, where sched = "[]" and rest = "round_robin 2616"] k by blast
  then have d: "ipc ?f = I_Done" "rpc ?f = R_Done" by simp_all
  note F = cas_sample_steps [OF h, where sched = "round_robin 2616" and m = 0]
  have "im ?f = max 0 (nsamples ?a) \<and> (0 < nsamples ?a \<longrightarrow> seq1 ?f = 199) \<and>
        length (stores Seq1 (trace ?f)) = 201 * nat (nsamples ?a)"
    using F [where n = 0] d(1) by blast
  then have i: "0 < im ?f" and e: "seq1 ?f = 199"
    and l: "length (stores Seq1 (trace ?f)) = 201" by simp_all
  have "(200::nat) < length (stores Seq1 (trace ?f)) \<longrightarrow>
        stores Seq1 (trace ?f) ! 200 = int (200 mod 201) - 1"
    using F [where n = 0] by blast
  then have g: "stores Seq1 (trace ?f) ! 200 = 199" using l by simp
  have m: "(0::int) \<le> 0 \<and> 0 < im ?f \<and> (n::nat) < 100" if "n < 100" for n
    using i that by simp
  have e57: "Ts1 0 \<in> set (trace ?f) \<and> Wrote Initiator Seq1 0 114 \<in> set (trace ?f) \<and>
             Wrote Responder Seq1 0 115 \<in> set (trace ?f) \<and>
             Passed Initiator Seq1 0 199 \<in> set (trace ?f) \<and> Ts2 0 \<in> set (trace ?f)"
    using F [where n = 57] m [of 57] by simp
  have e99: "Wrote Responder Seq1 0 199 \<in> set (trace ?f)"
    using F [where n = 99] m [of 99] by simp
  show ?thesis using h st c v b t k d i e57 e99 e l g by blast
qed

text \<open>
  C7. In every state the two threads can reach, under either protocol, a spin-wait that
  has returned on a value \<open>v\<close> in a sample \<open>m\<close> did so after the peer's store of \<open>v\<close> into that
  cell in the same sample. For the flag exchange: the spawned thread's wait for
  \<open>seq1 == n\<close> returns after the main thread's store of \<open>n\<close>, the main thread's wait for
  \<open>seq2 == n\<close> after the spawned thread's store of \<open>n\<close>; and while the spawned thread stands
  between its wait and its store of step \<open>n\<close>, the main thread waits in step \<open>n\<close> of the same
  sample, with \<open>n\<close> in \<open>seq1\<close>.
\<close>

theorem spin_wait_returns_after_peer_store:
  fixes a sched
  defines "s \<equiv> run a sched init"
  shows "before (Wrote (peer c) x m v) (Passed c x m v) (trace s)
       \<and> (\<not> use_write a \<longrightarrow>
            before (Wrote Initiator Seq1 m (int n)) (Passed Responder Seq1 m (int n)) (trace s) \<and>
            before (Wrote Responder Seq2 m (int n)) (Passed Initiator Seq2 m (int n)) (trace s) \<and>
            (rpc s = R_Store n \<longrightarrow>
               ipc s = I_Spin n \<and> im s = rm s \<and> seq1 s = int n \<and> n < 100))"
proof -
  have J: "justified_trace a (trace s)" unfolding s_def by (rule trace_justified)
  have gen: "before (Wrote (peer c') x' m' v') (Passed c' x' m' v') (trace s)" for c' x' m' v'
    using J by (rule justified_before) simp
  have st: "ipc s = I_Spin n \<and> im s = rm s \<and> seq1 s = int n \<and> n < 100"
    if "\<not> use_write a" "rpc s = R_Store n"
  proof -
    have "flag_inv a s" unfolding s_def using that(1) by (rule flag_inv_run)
    then show ?thesis using that(2)
      by (cases "ipc s") (auto simp: flag_inv_def wf_def split: if_splits)
  qed
  show ?thesis using gen [of c x m v] gen [of Responder Seq1 m "int n"]
      gen [of Initiator Seq2 m "int n"] st by simp
qed

theorem spin_wait_returns_after_peer_store_witness:
  "trace (run \<lparr>nsamples = 1, use_write = False, preheat = False\<rparr>
        [Initiator, Initiator, Initiator, Initiator, Initiator, Initiator, Initiator,
         Responder, Responder, Responder, Responder] init) ! 4 = Passed Responder Seq1 0 0
   \<and> Wrote Initiator Seq1 0 0 \<in> set (take 4 (trace (run \<lparr>nsamples = 1, use_write = False, preheat = False\<rparr>
        [Initiator, Initiator, Initiator, Initiator, Initiator, Initiator, Initiator,
         Responder, Responder, Responder, Responder] init)))
   \<and> rpc (run \<lparr>nsamples = 1, use_write = False, preheat = False\<rparr>
        [Initiator, Initiator, Initiator, Initiator, Initiator, Initiator, Initiator,
         Responder, Responder, Responder, Responder] init) = R_Store 0
   \<and> ipc (run \<lparr>nsamples = 1, use_write = False, preheat = False\<rparr>
        [Initiator, Initiator, Initiator, Initiator, Initiator, Initiator, Initiator,
         Responder, Responder, Responder, Responder] init) = I_Spin 0"
proof -
  let ?a = "\<lparr>nsamples = 1, use_write = False, preheat = False\<rparr>"
  let ?sched = "[Initiator, Initiator, Initiator, Initiator, Initiator, Initiator, Initiator,
         Responder, Responder, Responder, Responder]"
  let ?s = "run ?a ?sched init"
  have tr: "trace ?s = [Wrote Initiator Seq1 0 (-1), Wrote Initiator Seq2 0 (-1), Ts1 0,
                        Wrote Initiator Seq1 0 0, Passed Responder Seq1 0 0]"
    by (simp add: init_def step_def main_step_def thread_func_step_def)
  have r: "rpc ?s = R_Store 0"
    by (simp add: init_def step_def main_step_def thread_func_step_def)
  note T = spin_wait_returns_after_peer_store [of Responder Seq1 0 0 ?a ?sched 0]
  have k: "(4::nat) < length (trace ?s)" "trace ?s ! 4 = Passed Responder Seq1 0 0"
    unfolding tr by simp_all
  have "before (Wrote Initiator Seq1 0 0) (Passed Responder Seq1 0 0) (trace ?s)"
    using T by simp
  then have "Wrote Initiator Seq1 0 0 \<in> set (take 4 (trace ?s))"
    unfolding before_def using k by blast
  moreover have "ipc ?s = I_Spin 0" using T r by simp
  ultimately show ?thesis using k r by blast
qed

subsection \<open>The warm-up in the two protocols\<close>

text \<open>
  With warm-up enabled each thread completes its warm-up exactly once per pair, before its
  own first access to a cell; the warm-up of the main thread precedes every first clock
  reading; under the compare-and-exchange protocol the same holds of the warm-up of the
  spawned thread, which the barrier at line 219 waits for. Without the option no warm-up
  is run. The warm-up loop returns at the first poll that shows at least 200000000 ns
  since its start reading, and it does return when some poll shows that much.
\<close>

lemma warmup_in_both_protocols:
  fixes a sched
  defines "s \<equiv> run a sched init"
  shows "count_list (trace s) (Warmup Initiator) =
           (if preheat a \<and> ipc s \<noteq> I_Pin \<and> ipc s \<noteq> I_Preheat then 1 else 0)
       \<and> count_list (trace s) (Warmup Responder) =
           (if preheat a \<and> rpc s \<noteq> R_Pin \<and> rpc s \<noteq> R_Preheat then 1 else 0)
       \<and> (preheat a \<longrightarrow>
            before (Warmup c) (Wrote c x m v) (trace s) \<and>
            before (Warmup c) (Passed c x m v) (trace s) \<and>
            before (Warmup Initiator) (Ts1 m) (trace s) \<and>
            (use_write a \<longrightarrow> before (Warmup Responder) (Ts1 m) (trace s)))
       \<and> (\<forall>k < length (trace s). trace s ! k = Warmup Initiator \<longrightarrow>
             \<not> list_ex is_Ts1 (take k (trace s)))
       \<and> (use_write a \<longrightarrow>
            (\<forall>k < length (trace s). trace s ! k = Warmup Responder \<longrightarrow>
               \<not> list_ex is_Ts1 (take k (trace s))))
       \<and> (warmup readings = Some p \<longrightarrow>
            1 \<le> p \<and> 200000000 \<le> int (readings p) - int (readings 0) \<and>
            (\<forall>i. 1 \<le> i \<and> i < p \<longrightarrow> int (readings i) - int (readings 0) < 200000000))
       \<and> ((\<exists>j \<ge> 1. 200000000 \<le> int (readings j) - int (readings 0)) \<longrightarrow>
            (\<exists>p. warmup readings = Some p))"
proof -
  have J: "justified_trace a (trace s)" unfolding s_def by (rule trace_justified)
  have W: "warm_inv a s" unfolding s_def by (rule warm_inv_run)
  have n1: "count_list (trace s) (Warmup Initiator) =
           (if preheat a \<and> ipc s \<noteq> I_Pin \<and> ipc s \<noteq> I_Preheat then 1 else 0)"
    using W by (simp add: warm_inv_def)
  have n2: "count_list (trace s) (Warmup Responder) =
           (if preheat a \<and> rpc s \<noteq> R_Pin \<and> rpc s \<noteq> R_Preheat then 1 else 0)"
    using W by (simp add: warm_inv_def)
  have b1: "before (Warmup c) (Wrote c x m v) (trace s)" if "preheat a"
    using J by (rule justified_before) (cases c; cases x; simp add: warmed_def that)
  have b2: "before (Warmup c) (Passed c x m v) (trace s)" if "preheat a"
    using J by (rule justified_before) (simp add: warmed_def that)
  have b3: "before (Warmup Initiator) (Ts1 m) (trace s)" if "preheat a"
    using J by (rule justified_before) (simp add: warmed_def that)
  have b4: "before (Warmup Responder) (Ts1 m) (trace s)" if "preheat a" "use_write a"
    using J by (rule justified_before) (simp add: warmed_def that)
  have f1: "\<not> list_ex is_Ts1 (take k (trace s))"
    if "k < length (trace s)" "trace s ! k = Warmup Initiator" for k
  proof -
    have "justified a (take k (trace s)) (trace s ! k)"
      using J that(1) by (simp add: justified_trace_def)
    then show ?thesis using that(2) by simp
  qed
  have f2: "\<not> list_ex is_Ts1 (take k (trace s))"
    if "use_write a" "k < length (trace s)" "trace s ! k = Warmup Responder" for k
  proof -
    have "justified a (take k (trace s)) (trace s ! k)"
      using J that(2) by (simp add: justified_trace_def)
    then show ?thesis using that(1,3) by simp
  qed
  have w1: "1 \<le> p \<and> 200000000 \<le> int (readings p) - int (readings 0) \<and>
            (\<forall>i. 1 \<le> i \<and> i < p \<longrightarrow> int (readings i) - int (readings 0) < 200000000)"
    if "warmup readings = Some p"
    using that by (rule warmup_Some)
  have w2: "\<exists>p. warmup readings = Some p"
    if "\<exists>j \<ge> 1. 200000000 \<le> int (readings j) - int (readings 0)"
    using that warmup_returns by blast
  show ?thesis
    using n1 n2 b1 b2 b3 b4 f1 f2 w1 w2 by blast
qed

text \<open>
  C9. With warm-up enabled, the warm-up of each thread is to precede every timed sample of
  the pair and never to fall inside a timed window: the usage text promises to preheat
  each core before measuring (line 143), and the compare-and-exchange protocol waits for
  the spawned thread before its first clock reading (line 219). The flag exchange has no
  such wait. With \<^verbatim>\<open>-H\<close>, no \<^verbatim>\<open>-w\<close> and one sample, let the main thread run lines 184-204 of
  sample 0, so that its warm-up has returned, \<open>ts1\<close> is taken and 0 is stored into \<open>seq1\<close>,
  before the spawned thread runs lines 56-68. The warm-up of the spawned thread then
  returns after the first clock reading of sample 0, while the main thread spins at line
  206 inside the timed window: the log has \<open>Ts1 0\<close> at position 3 and \<open>Warmup Responder\<close>
  only at position 5.
\<close>

theorem responder_warmup_inside_timed_window:
  "preheat \<lparr>nsamples = 1, use_write = False, preheat = True\<rparr>
   \<and> trace (run \<lparr>nsamples = 1, use_write = False, preheat = True\<rparr>
        [Initiator, Initiator, Initiator, Initiator, Initiator, Initiator, Initiator,
         Responder, Responder] init)
      = [Warmup Initiator, Wrote Initiator Seq1 0 (-1), Wrote Initiator Seq2 0 (-1), Ts1 0,
         Wrote Initiator Seq1 0 0, Warmup Responder]
   \<and> ipc (run \<lparr>nsamples = 1, use_write = False, preheat = True\<rparr>
        [Initiator, Initiator, Initiator, Initiator, Initiator, Initiator, Initiator,
         Responder, Responder] init) = I_Spin 0
   \<and> timed (ipc (run \<lparr>nsamples = 1, use_write = False, preheat = True\<rparr>
        [Initiator, Initiator, Initiator, Initiator, Initiator, Initiator, Initiator,
         Responder, Responder] init))
   \<and> \<not> before (Warmup Responder) (Ts1 0)
        (trace (run \<lparr>nsamples = 1, use_write = False, preheat = True\<rparr>
        [Initiator, Initiator, Initiator, Initiator, Initiator, Initiator, Initiator,
         Responder, Responder] init))"
proof -
  let ?a = "\<lparr>nsamples = 1, use_write = False, preheat = True\<rparr>"
  let ?sched = "[Initiator, Initiator, Initiator, Initiator, Initiator, Initiator, Initiator,
         Responder, Responder]"
  let ?s = "run ?a ?sched init"
  have tr: "trace ?s =
      [Warmup Initiator, Wrote Initiator Seq1 0 (-1), Wrote Initiator Seq2 0 (-1), Ts1 0,
       Wrote Initiator Seq1 0 0, Warmup Responder]"
    by (simp add: init_def step_def main_step_def thread_func_step_def)
  have pc: "ipc ?s = I_Spin 0"
    by (simp add: init_def step_def main_step_def thread_func_step_def)
  have nb: "\<not> before (Warmup Responder) (Ts1 0) (trace ?s)"
  proof
    assume "before (Warmup Responder) (Ts1 0) (trace ?s)"
    then have "(3::nat) < length (trace ?s) \<longrightarrow> trace ?s ! 3 = Ts1 0 \<longrightarrow>
        Warmup Responder \<in> set (take 3 (trace ?s))"
      unfolding before_def by blast
    then show False unfolding tr by simp
  qed
  show ?thesis using tr pc nb by simp
qed

theorem responder_warmup_inside_timed_window_witness:
  "trace (run \<lparr>nsamples = 1, use_write = False, preheat = True\<rparr>
        [Initiator, Initiator, Initiator, Initiator, Initiator, Initiator, Initiator,
         Responder, Responder] init) ! 3 = Ts1 0
   \<and> trace (run \<lparr>nsamples = 1, use_write = False, preheat = True\<rparr>
        [Initiator, Initiator, Initiator, Initiator, Initiator, Initiator, Initiator,
         Responder, Responder] init) ! 5 = Warmup Responder
   \<and> Warmup Responder \<notin> set (take 5 (trace (run \<lparr>nsamples = 1, use_write = False, preheat = True\<rparr>
        [Initiator, Initiator, Initiator, Initiator, Initiator, Initiator, Initiator,
         Responder, Responder] init)))"
  using responder_warmup_inside_timed_window by simp

end
